theory Spec2Isabelle
  imports Main "HOL-Library.Word"
begin

section \<open>Data model of the DebugSocket relay server\<close>

text \<open>
  The Go server keeps a registry \<open>map[string]*Session\<close>; sessions and websocket
  connections are heap objects reached through pointers. Pointers are modelled as
  natural numbers, the heap as a function from pointers to objects together with an
  allocation counter, so that a goroutine that still holds the pointer of a replaced
  session keeps working on that (now unreachable) object, as in the source.

  A \<open>time.Time\<close> is the number of nanoseconds since Go's zero instant
  (\<open>IsZero\<close> is \<open>= 0\<close>); a \<open>time.Duration\<close> is an \<open>int64\<close> of nanoseconds.
\<close>

type_synonym time = int
type_synonym duration = "64 word"
type_synonym conn_ref = nat
type_synonym session_ref = nat

record LogEntry =
  Timestamp :: time
  Message :: string

text \<open>
  What the server can observe of a \<open>*websocket.Conn\<close>: whether \<open>Close\<close> was called,
  the text frames a successful \<open>WriteMessage\<close> delivered, and how many times
  \<open>WriteMessage\<close> was called on it.
\<close>

record Conn =
  closed :: bool
  received :: "string list"
  writes :: nat

record Session =
  DeviceHash :: string
  Name :: string
  IPv4 :: string
  IPv6 :: string
  Connected :: time
  Logs :: "LogEntry list"
  LogCount :: nat
  conn :: "conn_ref option"
  tailConns :: "conn_ref list"

record Server =
  sessions :: "string \<rightharpoonup> session_ref"
  secret :: string
  sessionHeap :: "session_ref \<Rightarrow> Session"
  nextSession :: session_ref
  conns :: "conn_ref \<Rightarrow> Conn"
  nextConn :: conn_ref

text \<open>
  The functions of Go's standard library that the handlers call are parameters:
  \<open>json.Unmarshal\<close> into a \<open>LogEntry\<close> (\<open>None\<close> is an error; absent fields keep their
  zero value), \<open>json.Marshal\<close> of an entry, \<open>time.ParseDuration\<close>, \<open>regexp.Compile\<close>
  (a compiled pattern is its \<open>MatchString\<close> predicate) and \<open>Time.Format\<close> with the layout
  of the text output. The left injection carries the error's text.
\<close>

record GoLib =
  Unmarshal :: "string \<Rightarrow> LogEntry option"
  Marshal :: "LogEntry \<Rightarrow> string"
  ParseDuration :: "string \<Rightarrow> string + duration"
  Compile :: "string \<Rightarrow> string + (string \<Rightarrow> bool)"
  Format :: "time \<Rightarrow> string"

record Request =
  Path :: string
  Query :: "(string \<times> string) list"

datatype Body =
  Plain string
  | JsonLogs "LogEntry list"
  | JsonHealth string nat time

record Response =
  Status :: nat
  ContentType :: string
  Body :: Body

text \<open>Outcome of a handler that upgrades the request to a websocket.\<close>

datatype Upgrade =
  Rejected Response
  | UpgradeFailed
  | Upgraded session_ref conn_ref

section \<open>Helpers of the standard library with a fixed meaning\<close>

text \<open>\<open>url.Values.Get\<close>: the first value of the key, the empty string when absent.\<close>

definition Get :: "(string \<times> string) list \<Rightarrow> string \<Rightarrow> string" where
  "Get q k = (case map_of q k of None \<Rightarrow> [] | Some v \<Rightarrow> v)"

definition TrimPrefix :: "string \<Rightarrow> string \<Rightarrow> string" where
  "TrimPrefix s p = (if take (length p) s = p then drop (length p) s else s)"

definition TrimSuffix :: "string \<Rightarrow> string \<Rightarrow> string" where
  "TrimSuffix s p =
     (if length p \<le> length s \<and> drop (length s - length p) s = p
      then take (length s - length p) s else s)"

text \<open>\<open>http.Error\<close>: status, plain-text content type, the message and a newline.\<close>

definition httpError :: "string \<Rightarrow> nat \<Rightarrow> Response" where
  "httpError msg code =
     \<lparr>Status = code, ContentType = ''text/plain; charset=utf-8'',
      Body = Plain (msg @ [CHR 0x0A])\<rparr>"

definition IsZero :: "time \<Rightarrow> bool" where
  "IsZero t = (t = 0)"

definition After :: "time \<Rightarrow> time \<Rightarrow> bool" where
  "After t u = (t > u)"

text \<open>\<open>t.Add(d)\<close>; the duration is a signed 64-bit number of nanoseconds.\<close>

definition Add :: "time \<Rightarrow> duration \<Rightarrow> time" where
  "Add t d = t + sint d"

section \<open>Connections\<close>

definition newConn :: Conn where
  "newConn = \<lparr>closed = False, received = [], writes = 0\<rparr>"

text \<open>\<open>upgrader.Upgrade\<close> on success: a new connection object.\<close>

definition upgradeConn :: "Server \<Rightarrow> conn_ref \<times> Server" where
  "upgradeConn s =
     (nextConn s, s\<lparr>conns := (conns s)(nextConn s := newConn), nextConn := Suc (nextConn s)\<rparr>)"

definition closeConn :: "conn_ref \<Rightarrow> (conn_ref \<Rightarrow> Conn) \<Rightarrow> (conn_ref \<Rightarrow> Conn)" where
  "closeConn c cs = cs(c := (cs c)\<lparr>closed := True\<rparr>)"

text \<open>
  \<open>conn.WriteMessage\<close> under the write deadline: \<open>ok c\<close> says whether the peer of \<open>c\<close>
  accepts the frame in time during this pass; a write on a closed connection fails.
  The result is the error flag and the updated connections.
\<close>

definition WriteMessage ::
  "(conn_ref \<Rightarrow> bool) \<Rightarrow> conn_ref \<Rightarrow> string \<Rightarrow> (conn_ref \<Rightarrow> Conn) \<Rightarrow> bool \<times> (conn_ref \<Rightarrow> Conn)" where
  "WriteMessage ok c msg cs =
     (if closed (cs c) \<or> \<not> ok c
      then (True, cs(c := (cs c)\<lparr>writes := Suc (writes (cs c))\<rparr>))
      else (False, cs(c := (cs c)\<lparr>received := received (cs c) @ [msg],
                                   writes := Suc (writes (cs c))\<rparr>)))"

section \<open>The server\<close>

definition zeroSession :: Session where
  "zeroSession =
     \<lparr>DeviceHash = [], Name = [], IPv4 = [], IPv6 = [], Connected = 0, Logs = [],
      LogCount = 0, conn = None, tailConns = []\<rparr>"

definition NewServer :: "string \<Rightarrow> Server" where
  "NewServer sec =
     \<lparr>sessions = Map.empty, secret = sec, sessionHeap = (\<lambda>_. zeroSession), nextSession = 0,
      conns = (\<lambda>_. newConn), nextConn = 0\<rparr>"

definition checkSecret :: "Server \<Rightarrow> Request \<Rightarrow> bool" where
  "checkSecret s r = (Get (Query r) ''secret'' = secret s)"

subsection \<open>broadcastToTail\<close>

text \<open>The write loop over the consumer handles; returns \<open>deadConns\<close>.\<close>

fun writeAll ::
  "(conn_ref \<Rightarrow> bool) \<Rightarrow> string \<Rightarrow> conn_ref list \<Rightarrow> (conn_ref \<Rightarrow> Conn)
     \<Rightarrow> conn_ref list \<times> (conn_ref \<Rightarrow> Conn)" where
  "writeAll ok msg [] cs = ([], cs)"
| "writeAll ok msg (c # rest) cs =
     (case WriteMessage ok c msg cs of
        (err, cs1) \<Rightarrow>
          (case writeAll ok msg rest cs1 of
             (dead, cs2) \<Rightarrow> (if err then c # dead else dead, cs2)))"

text \<open>
  The inner loop of the clean-up (and of the deferred detach in \<open>handleTail\<close>): the slice
  without the first element equal to the handle, \<open>None\<close> when the loop ends without
  finding it.
\<close>

fun removeFirst :: "conn_ref \<Rightarrow> conn_ref list \<Rightarrow> conn_ref list option" where
  "removeFirst d [] = None"
| "removeFirst d (c # rest) =
     (if c = d then Some rest
      else (case removeFirst d rest of None \<Rightarrow> None | Some rest' \<Rightarrow> Some (c # rest')))"

text \<open>The outer loop of the clean-up: each dead handle is removed and closed.\<close>

fun removeDead ::
  "conn_ref list \<Rightarrow> conn_ref list \<Rightarrow> (conn_ref \<Rightarrow> Conn) \<Rightarrow> conn_ref list \<times> (conn_ref \<Rightarrow> Conn)" where
  "removeDead [] tc cs = (tc, cs)"
| "removeDead (dead # ds) tc cs =
     (case removeFirst dead tc of
        None \<Rightarrow> removeDead ds tc cs
      | Some tc' \<Rightarrow> removeDead ds tc' (closeConn dead cs))"

definition broadcastToTail ::
  "GoLib \<Rightarrow> (conn_ref \<Rightarrow> bool) \<Rightarrow> session_ref \<Rightarrow> LogEntry \<Rightarrow> Server \<Rightarrow> Server" where
  "broadcastToTail lib ok ref entry s =
     (let session = sessionHeap s ref in
      if length (tailConns session) = 0 then s
      else
        (case writeAll ok (Marshal lib entry) (tailConns session) (conns s) of
           (deadConns, cs1) \<Rightarrow>
             if length deadConns > 0 then
               (case removeDead deadConns (tailConns session) cs1 of
                  (tc, cs2) \<Rightarrow>
                    s\<lparr>sessionHeap := (sessionHeap s)(ref := session\<lparr>tailConns := tc\<rparr>),
                      conns := cs2\<rparr>)
             else s\<lparr>conns := cs1\<rparr>))"

subsection \<open>handleStream\<close>

text \<open>
  From the start of \<open>handleStream\<close> to the installation of the new session.
  \<open>upgradeOk\<close> is the outcome of \<open>upgrader.Upgrade\<close>, \<open>now\<close> the clock.
\<close>

definition handleStream_connect ::
  "time \<Rightarrow> bool \<Rightarrow> Request \<Rightarrow> Server \<Rightarrow> Upgrade \<times> Server" where
  "handleStream_connect now upgradeOk r s =
     (if \<not> checkSecret s r then (Rejected (httpError ''Unauthorized'' 401), s)
      else
        let deviceHash = Get (Query r) ''device'' in
        if deviceHash = [] then (Rejected (httpError ''Missing device parameter'' 400), s)
        else
          let deviceName =
                (if Get (Query r) ''name'' = [] then ''Unknown Device''
                 else Get (Query r) ''name'');
              ipv4 = Get (Query r) ''ipv4'';
              ipv6 = Get (Query r) ''ipv6''
          in
          if \<not> upgradeOk then (UpgradeFailed, s)
          else
            (case upgradeConn s of
               (c, s1) \<Rightarrow>
                 let s2 =
                       (case sessions s1 deviceHash of
                          None \<Rightarrow> s1
                        | Some oldSession \<Rightarrow>
                            (case conn (sessionHeap s1 oldSession) of
                               None \<Rightarrow> s1
                             | Some oc \<Rightarrow> s1\<lparr>conns := closeConn oc (conns s1)\<rparr>));
                     session =
                       \<lparr>DeviceHash = deviceHash, Name = deviceName, IPv4 = ipv4, IPv6 = ipv6,
                        Connected = now, Logs = [], LogCount = 0, conn = Some c,
                        tailConns = []\<rparr>;
                     ref = nextSession s2
                 in (Upgraded ref c,
                     s2\<lparr>sessionHeap := (sessionHeap s2)(ref := session),
                        nextSession := Suc ref,
                        sessions := (sessions s2)(deviceHash \<mapsto> ref)\<rparr>)))"

text \<open>Parsing of one inbound frame that arrives at \<open>now\<close>.\<close>

definition parseEntry :: "GoLib \<Rightarrow> time \<Rightarrow> string \<Rightarrow> LogEntry" where
  "parseEntry lib now message =
     (let entry =
            (case Unmarshal lib message of
               None \<Rightarrow> \<lparr>Timestamp = now, Message = message\<rparr>
             | Some e \<Rightarrow> e)
      in if IsZero (Timestamp entry) then entry\<lparr>Timestamp := now\<rparr> else entry)"

text \<open>The store step of the read loop: append under the log lock.\<close>

definition appendLog :: "session_ref \<Rightarrow> LogEntry \<Rightarrow> Server \<Rightarrow> Server" where
  "appendLog ref entry s =
     (let session = sessionHeap s ref;
          logs = Logs session @ [entry]
      in s\<lparr>sessionHeap :=
             (sessionHeap s)(ref := session\<lparr>Logs := logs, LogCount := length logs\<rparr>)\<rparr>)"

text \<open>
  One iteration of the read loop for a frame that \<open>ReadMessage\<close> returned: parse, store,
  forward, with no step of another goroutine between the store and the forward.
  \<open>ref\<close> is the session this handler created.
\<close>

definition handleStream_frame ::
  "GoLib \<Rightarrow> (conn_ref \<Rightarrow> bool) \<Rightarrow> time \<Rightarrow> session_ref \<Rightarrow> string \<Rightarrow> Server \<Rightarrow> Server" where
  "handleStream_frame lib ok now ref message s =
     (let entry = parseEntry lib now message
      in broadcastToTail lib ok ref entry (appendLog ref entry s))"

text \<open>\<open>ReadMessage\<close> returned an error: the loop ends and the deferred function runs.\<close>

definition handleStream_close :: "conn_ref \<Rightarrow> Server \<Rightarrow> Server" where
  "handleStream_close c s = s\<lparr>conns := closeConn c (conns s)\<rparr>"

subsection \<open>handleTail\<close>

definition handleTail_connect :: "bool \<Rightarrow> Request \<Rightarrow> Server \<Rightarrow> Upgrade \<times> Server" where
  "handleTail_connect upgradeOk r s =
     (if \<not> checkSecret s r then (Rejected (httpError ''Unauthorized'' 401), s)
      else
        let path = TrimPrefix (Path r) ''/tail/'';
            deviceHash = TrimSuffix path ''/''
        in
        if deviceHash = [] then (Rejected (httpError ''Missing device hash in path'' 400), s)
        else
          (case sessions s deviceHash of
             None \<Rightarrow> (Rejected (httpError ''Device not found'' 404), s)
           | Some ref \<Rightarrow>
               if \<not> upgradeOk then (UpgradeFailed, s)
               else
                 (case upgradeConn s of
                    (c, s1) \<Rightarrow>
                      let session = sessionHeap s1 ref in
                      (Upgraded ref c,
                       s1\<lparr>sessionHeap :=
                            (sessionHeap s1)(ref := session\<lparr>tailConns := tailConns session @ [c]\<rparr>)\<rparr>))))"

text \<open>The consumer's read failed: the deferred function detaches and closes the handle.\<close>

definition handleTail_close :: "session_ref \<Rightarrow> conn_ref \<Rightarrow> Server \<Rightarrow> Server" where
  "handleTail_close ref c s =
     (let session = sessionHeap s ref;
          s1 = (case removeFirst c (tailConns session) of
                  None \<Rightarrow> s
                | Some tc \<Rightarrow> s\<lparr>sessionHeap := (sessionHeap s)(ref := session\<lparr>tailConns := tc\<rparr>)\<rparr>)
      in s1\<lparr>conns := closeConn c (conns s1)\<rparr>)"

subsection \<open>handleLogs\<close>

text \<open>The two filter loops.\<close>

fun sinceLoop :: "time \<Rightarrow> LogEntry list \<Rightarrow> LogEntry list" where
  "sinceLoop cutoff [] = []"
| "sinceLoop cutoff (entry # rest) =
     (if After (Timestamp entry) cutoff then entry # sinceLoop cutoff rest
      else sinceLoop cutoff rest)"

fun regexLoop :: "(string \<Rightarrow> bool) \<Rightarrow> LogEntry list \<Rightarrow> LogEntry list" where
  "regexLoop re [] = []"
| "regexLoop re (entry # rest) =
     (if re (Message entry) then entry # regexLoop re rest else regexLoop re rest)"

text \<open>The time filter for a parsed duration: \<open>cutoff := time.Now().Add(-duration)\<close>.\<close>

definition sinceFilter :: "time \<Rightarrow> duration \<Rightarrow> LogEntry list \<Rightarrow> LogEntry list" where
  "sinceFilter now d logs = sinceLoop (Add now (- d)) logs"

definition textLine :: "GoLib \<Rightarrow> LogEntry \<Rightarrow> string" where
  "textLine lib entry = Format lib (Timestamp entry) @ ''  '' @ Message entry @ [CHR 0x0A]"

definition handleLogs :: "GoLib \<Rightarrow> time \<Rightarrow> Request \<Rightarrow> Server \<Rightarrow> Response" where
  "handleLogs lib now r s =
     (if \<not> checkSecret s r then httpError ''Unauthorized'' 401
      else
        let path = TrimPrefix (Path r) ''/logs/'';
            deviceHash = TrimSuffix path ''/''
        in
        if deviceHash = [] then httpError ''Missing device hash in path'' 400
        else
          (case sessions s deviceHash of
             None \<Rightarrow> httpError ''Device not found'' 404
           | Some ref \<Rightarrow>
               let regexPattern = Get (Query r) ''regex'';
                   sinceStr = Get (Query r) ''since'';
                   logs = Logs (sessionHeap s ref)
               in
               (case (if sinceStr \<noteq> [] then
                        (case ParseDuration lib sinceStr of
                           Inl err \<Rightarrow> Inl (httpError (''Invalid since parameter: '' @ err) 400)
                         | Inr d \<Rightarrow> Inr (sinceFilter now d logs))
                      else Inr logs) of
                  Inl resp \<Rightarrow> resp
                | Inr logs1 \<Rightarrow>
                    (case (if regexPattern \<noteq> [] then
                             (case Compile lib regexPattern of
                                Inl err \<Rightarrow> Inl (httpError (''Invalid regex: '' @ err) 400)
                              | Inr re \<Rightarrow> Inr (regexLoop re logs1))
                           else Inr logs1) of
                       Inl resp \<Rightarrow> resp
                     | Inr logs2 \<Rightarrow>
                         if Get (Query r) ''format'' = ''text'' then
                           \<lparr>Status = 200, ContentType = ''text/plain'',
                            Body = Plain (concat (map (textLine lib) logs2))\<rparr>
                         else
                           \<lparr>Status = 200, ContentType = ''application/json'',
                            Body = JsonLogs logs2\<rparr>))))"

subsection \<open>handleHealth\<close>

definition handleHealth :: "time \<Rightarrow> Request \<Rightarrow> Server \<Rightarrow> Response" where
  "handleHealth now r s =
     (if \<not> checkSecret s r then httpError ''Unauthorized'' 401
      else
        \<lparr>Status = 200, ContentType = ''application/json'',
         Body = JsonHealth ''ok'' (card (dom (sessions s))) now\<rparr>)"

section \<open>Runs of the server\<close>

text \<open>Whether a write of this pass on the handle returns an error.\<close>

definition writeFails :: "(conn_ref \<Rightarrow> bool) \<Rightarrow> (conn_ref \<Rightarrow> Conn) \<Rightarrow> conn_ref \<Rightarrow> bool" where
  "writeFails ok cs c = (closed (cs c) \<or> \<not> ok c)"

text \<open>
  The handlers run as goroutines that touch the shared state under locks. A run of the
  server is a sequence of steps, one for each critical section: the producer stores an
  entry under the log lock (\<open>StreamStore\<close>) and forwards it afterwards under the lock of
  the consumer set (\<open>StreamForward\<close>, with the entry the handler still holds), so steps
  of other handlers can fall between the two. The only interleaving not modelled is the
  one inside \<open>broadcastToTail\<close>, which gives up its read lock before it takes the write
  lock for the clean-up.
\<close>

datatype event =
  StreamConnect time bool Request
  | StreamStore time session_ref string
  | StreamForward "conn_ref \<Rightarrow> bool" session_ref LogEntry
  | StreamClose conn_ref
  | TailConnect bool Request
  | TailClose session_ref conn_ref

fun step :: "GoLib \<Rightarrow> event \<Rightarrow> Server \<Rightarrow> Server" where
  "step lib (StreamConnect now up r) s = snd (handleStream_connect now up r s)"
| "step lib (StreamStore now ref message) s = appendLog ref (parseEntry lib now message) s"
| "step lib (StreamForward ok ref entry) s = broadcastToTail lib ok ref entry s"
| "step lib (StreamClose c) s = handleStream_close c s"
| "step lib (TailConnect up r) s = snd (handleTail_connect up r s)"
| "step lib (TailClose ref c) s = handleTail_close ref c s"

fun run :: "GoLib \<Rightarrow> event list \<Rightarrow> Server \<Rightarrow> Server" where
  "run lib [] s = s"
| "run lib (e # es) s = run lib es (step lib e s)"

text \<open>
  The session and producer handle of every producer connect under the device that was
  upgraded during a run, in the order of the connects.
\<close>

fun created :: "GoLib \<Rightarrow> string \<Rightarrow> event list \<Rightarrow> Server \<Rightarrow> (session_ref \<times> conn_ref) list" where
  "created lib d [] s = []"
| "created lib d (StreamConnect now up r # es) s =
     (case fst (handleStream_connect now up r s) of
        Upgraded ref c \<Rightarrow> (if Get (Query r) ''device'' = d then [(ref, c)] else [])
      | _ \<Rightarrow> [])
     @ created lib d es (step lib (StreamConnect now up r) s)"
| "created lib d (e # es) s = created lib d es (step lib e s)"

text \<open>
  The two steps of one frame of the producer of session \<open>ref\<close> that arrives at \<open>now\<close>.
\<close>

definition frame :: "GoLib \<Rightarrow> (conn_ref \<Rightarrow> bool) \<Rightarrow> time \<Rightarrow> session_ref \<Rightarrow> string \<Rightarrow> event list" where
  "frame lib ok now ref message =
     [StreamStore now ref message, StreamForward ok ref (parseEntry lib now message)]"

text \<open>The text frames of the publish passes on a session during a run, in order.\<close>

fun forwarded :: "GoLib \<Rightarrow> session_ref \<Rightarrow> event list \<Rightarrow> string list" where
  "forwarded lib ref [] = []"
| "forwarded lib ref (StreamForward ok r entry # es) =
     (if r = ref then Marshal lib entry # forwarded lib ref es else forwarded lib ref es)"
| "forwarded lib ref (e # es) = forwarded lib ref es"

text \<open>
  A step that leaves the consumer handle \<open>c\<close> of session \<open>ref\<close> alone: it is not the
  close of \<open>c\<close>, and if it is a publish pass on the session the write to \<open>c\<close> succeeds.
\<close>

fun undisturbed :: "session_ref \<Rightarrow> conn_ref \<Rightarrow> event \<Rightarrow> bool" where
  "undisturbed ref c (StreamForward ok r entry) = (r \<noteq> ref \<or> ok c)"
| "undisturbed ref c (StreamClose c') = (c' \<noteq> c)"
| "undisturbed ref c (TailClose r c') = (c' \<noteq> c)"
| "undisturbed ref c e = True"

text \<open>
  Consumer handles come from distinct upgrades: no handle is attached twice or to two
  sessions, and every attached handle has been allocated.
\<close>

definition wf :: "Server \<Rightarrow> bool" where
  "wf s \<longleftrightarrow>
     (\<forall>r. distinct (tailConns (sessionHeap s r))) \<and>
     (\<forall>r. \<forall>c \<in> set (tailConns (sessionHeap s r)). c < nextConn s) \<and>
     (\<forall>r r'. r \<noteq> r' \<longrightarrow>
        set (tailConns (sessionHeap s r)) \<inter> set (tailConns (sessionHeap s r')) = {})"

text \<open>The producer handle of the session the registry holds for a device, if any.\<close>

definition producerOf :: "Server \<Rightarrow> string \<Rightarrow> conn_ref option" where
  "producerOf s d = (case sessions s d of None \<Rightarrow> None | Some ref \<Rightarrow> conn (sessionHeap s ref))"

text \<open>
  Every session the registry holds and every producer handle a session holds has been
  allocated.
\<close>

definition allocated :: "Server \<Rightarrow> bool" where
  "allocated s \<longleftrightarrow>
     (\<forall>d r. sessions s d = Some r \<longrightarrow> r < nextSession s) \<and>
     (\<forall>r c. conn (sessionHeap s r) = Some c \<longrightarrow> c < nextConn s)"

text \<open>An allocated handle that is the producer handle of no session.\<close>

definition notProducer :: "Server \<Rightarrow> conn_ref \<Rightarrow> bool" where
  "notProducer s c \<longleftrightarrow> c < nextConn s \<and> (\<forall>r. conn (sessionHeap s r) \<noteq> Some c)"

text \<open>An allocated handle that no session has among its consumers.\<close>

definition detached :: "Server \<Rightarrow> conn_ref \<Rightarrow> bool" where
  "detached s c \<longleftrightarrow> c < nextConn s \<and> (\<forall>r. c \<notin> set (tailConns (sessionHeap s r)))"

text \<open>
  The invariant of the producer sessions created for a device so far: the registry holds
  the last one, which holds its handle; all are allocated; the handles of the earlier ones
  are closed.
\<close>

definition producersInv :: "string \<Rightarrow> (session_ref \<times> conn_ref) list \<Rightarrow> Server \<Rightarrow> bool" where
  "producersInv d hist s \<longleftrightarrow>
     (hist \<noteq> [] \<longrightarrow>
        sessions s d = Some (fst (last hist)) \<and>
        conn (sessionHeap s (fst (last hist))) = Some (snd (last hist))) \<and>
     (\<forall>p \<in> set hist. fst p < nextSession s \<and> snd p < nextConn s) \<and>
     (\<forall>p \<in> set (butlast hist). closed (conns s (snd p)) \<and> fst p \<noteq> fst (last hist))"

section \<open>Concrete inputs\<close>

text \<open>
  An instance of the library for evaluating the handlers on concrete requests: it decodes
  the empty JSON object, knows the duration \<open>5m\<close>, rejects the pattern \<open>(\<close> and matches
  any other pattern literally, anywhere in the message. It also knows the least duration,
  which \<open>time.ParseDuration\<close> returns for \<open>-2562047h47m16.854775808s\<close>.
\<close>

fun contains :: "string \<Rightarrow> string \<Rightarrow> bool" where
  "contains p [] = (p = [])"
| "contains p (c # cs) = (take (length p) (c # cs) = p \<or> contains p cs)"

definition testLib :: GoLib where
  "testLib =
     \<lparr>Unmarshal = (\<lambda>m. if m = ''{}'' then Some \<lparr>Timestamp = 0, Message = []\<rparr> else None),
      Marshal = (\<lambda>e. Message e),
      ParseDuration =
        (\<lambda>x. if x = ''5m'' then Inr 300000000000
             else if x = ''-2562047h47m16.854775808s'' then Inr (- 9223372036854775808)
             else Inl ''time: invalid duration''),
      Compile = (\<lambda>p. if p = ''('' then Inl ''missing closing )'' else Inr (contains p)),
      Format = (\<lambda>t. [])\<rparr>"

definition streamReq :: Request where
  "streamReq = \<lparr>Path = ''/stream'', Query = [(''device'', ''abc''), (''secret'', ''k'')]\<rparr>"

definition tailReq :: Request where
  "tailReq = \<lparr>Path = ''/tail/abc'', Query = [(''secret'', ''k'')]\<rparr>"

definition logsReq :: "(string \<times> string) list \<Rightarrow> Request" where
  "logsReq q = \<lparr>Path = ''/logs/abc'', Query = (''secret'', ''k'') # q\<rparr>"

text \<open>The producer \<open>abc\<close> connected at time 0 to a fresh server.\<close>

definition connected :: Server where
  "connected = snd (handleStream_connect 0 True streamReq (NewServer ''k''))"

text \<open>The same producer after one raw frame \<open>boot\<close> that arrived at time 1000.\<close>

definition booted :: Server where
  "booted = handleStream_frame testLib (\<lambda>_. True) 1000 0 ''boot'' connected"


text \<open>A consumer attaches to the session of the connected producer, which then reconnects.\<close>

definition reconnected :: Server where
  "reconnected = run testLib [TailConnect True tailReq, StreamConnect 5 True streamReq] connected"

text \<open>The producer has stored and forwarded the frames E1 and E2.\<close>

definition twoFrames :: Server where
  "twoFrames =
     run testLib (frame testLib (\<lambda>_. True) 1 0 ''E1'' @ frame testLib (\<lambda>_. True) 2 0 ''E2'')
       connected"

text \<open>A consumer attaches between the two steps of the frame E1 of the producer.\<close>

definition raced :: Server where
  "raced =
     run testLib
       [StreamStore 1 0 ''E1'', TailConnect True tailReq,
        StreamForward (\<lambda>_. True) 0 (parseEntry testLib 1 ''E1'')]
       connected"

section \<open>Properties of the steps\<close>


subsection \<open>The write loop\<close>

lemma WriteMessage_closed: "closed (snd (WriteMessage ok c msg cs) c') = closed (cs c')"
  by (simp add: WriteMessage_def)

lemma WriteMessage_fst: "fst (WriteMessage ok c msg cs) = writeFails ok cs c"
  by (simp add: WriteMessage_def writeFails_def)

lemma WriteMessage_other: "c' \<noteq> c \<Longrightarrow> snd (WriteMessage ok c msg cs) c' = cs c'"
  by (simp add: WriteMessage_def)

lemma writeFails_WriteMessage:
  "writeFails ok (snd (WriteMessage ok' c msg cs)) = writeFails ok cs"
  by (rule ext) (simp add: writeFails_def WriteMessage_closed)

lemma writeAll_closed: "closed (snd (writeAll ok msg tc cs) c) = closed (cs c)"
proof (induction tc arbitrary: cs)
  case Nil
  show ?case by simp
next
  case (Cons a tc)
  have "closed (snd (writeAll ok msg tc (snd (WriteMessage ok a msg cs))) c) = closed (cs c)"
    by (simp add: Cons.IH WriteMessage_closed)
  then show ?case by (simp add: case_prod_beta)
qed

lemma writeAll_dead: "fst (writeAll ok msg tc cs) = filter (writeFails ok cs) tc"
proof (induction tc arbitrary: cs)
  case Nil
  show ?case by simp
next
  case (Cons a tc)
  show ?case
    by (simp add: case_prod_beta Cons.IH WriteMessage_fst writeFails_WriteMessage)
qed

lemma writeAll_other: "c \<notin> set tc \<Longrightarrow> snd (writeAll ok msg tc cs) c = cs c"
proof (induction tc arbitrary: cs)
  case Nil
  show ?case by simp
next
  case (Cons a tc)
  then show ?case
    by (simp add: case_prod_beta WriteMessage_other)
qed

lemma writeAll_received:
  "distinct tc \<Longrightarrow> c \<in> set tc \<Longrightarrow>
     received (snd (writeAll ok msg tc cs) c) =
       (if writeFails ok cs c then received (cs c) else received (cs c) @ [msg])"
proof (induction tc arbitrary: cs)
  case Nil
  then show ?case by simp
next
  case (Cons a tc)
  show ?case
  proof (cases "c = a")
    case True
    with Cons.prems have "c \<notin> set tc" by simp
    then have "snd (writeAll ok msg tc (snd (WriteMessage ok a msg cs))) c =
                 snd (WriteMessage ok a msg cs) c"
      by (rule writeAll_other)
    with True show ?thesis
      by (simp add: case_prod_beta WriteMessage_def writeFails_def)
  next
    case False
    with Cons.prems have "distinct tc" "c \<in> set tc" by simp_all
    from Cons.IH [OF this] False show ?thesis
      by (simp add: case_prod_beta writeFails_WriteMessage WriteMessage_other)
  qed
qed

lemma writeAll_writes:
  "distinct tc \<Longrightarrow> c \<in> set tc \<Longrightarrow> writes (snd (writeAll ok msg tc cs) c) = Suc (writes (cs c))"
proof (induction tc arbitrary: cs)
  case Nil
  then show ?case by simp
next
  case (Cons a tc)
  show ?case
  proof (cases "c = a")
    case True
    with Cons.prems have "c \<notin> set tc" by simp
    then have "snd (writeAll ok msg tc (snd (WriteMessage ok a msg cs))) c =
                 snd (WriteMessage ok a msg cs) c"
      by (rule writeAll_other)
    with True show ?thesis
      by (simp add: case_prod_beta WriteMessage_def)
  next
    case False
    with Cons.prems have "distinct tc" "c \<in> set tc" by simp_all
    from Cons.IH [OF this] False show ?thesis
      by (simp add: case_prod_beta WriteMessage_other)
  qed
qed

subsection \<open>The clean-up loops\<close>

lemma removeFirst_eq: "removeFirst d tc = (if d \<in> set tc then Some (remove1 d tc) else None)"
  by (induction tc) auto

lemma distinct_remove1_filter:
  assumes "distinct tc"
  shows "remove1 d tc = filter (\<lambda>c. c \<noteq> d) tc"
proof -
  have "filter ((\<noteq>) d) tc = filter (\<lambda>c. c \<noteq> d) tc"
    by (rule filter_cong) auto
  with assms show ?thesis
    by (simp add: distinct_remove1_removeAll removeAll_filter_not_eq)
qed

lemma closeConn_closed: "closed (closeConn d cs c) = (c = d \<or> closed (cs c))"
  by (simp add: closeConn_def)

lemma closeConn_received: "received (closeConn d cs c) = received (cs c)"
  by (simp add: closeConn_def)

lemma closeConn_writes: "writes (closeConn d cs c) = writes (cs c)"
  by (simp add: closeConn_def)

lemma removeDead_fst:
  "distinct tc \<Longrightarrow> fst (removeDead ds tc cs) = filter (\<lambda>c. c \<notin> set ds) tc"
proof (induction ds arbitrary: tc cs)
  case Nil
  show ?case by simp
next
  case (Cons d ds)
  show ?case
  proof (cases "d \<in> set tc")
    case True
    from Cons.prems have r: "remove1 d tc = filter (\<lambda>c. c \<noteq> d) tc"
      by (rule distinct_remove1_filter)
    from Cons.prems have "distinct (remove1 d tc)" by simp
    from Cons.IH [OF this] True show ?thesis
      by (simp add: removeFirst_eq r conj_commute)
  next
    case False
    then have "filter (\<lambda>c. c \<noteq> d \<and> c \<notin> set ds) tc = filter (\<lambda>c. c \<notin> set ds) tc"
      by (intro filter_cong) auto
    with Cons.IH [OF Cons.prems] False show ?thesis
      by (simp add: removeFirst_eq)
  qed
qed

lemma removeDead_subset: "set (fst (removeDead ds tc cs)) \<subseteq> set tc"
proof (induction ds arbitrary: tc cs)
  case Nil
  show ?case by simp
next
  case (Cons d ds)
  show ?case
  proof (cases "d \<in> set tc")
    case True
    have "set (fst (removeDead ds (remove1 d tc) (closeConn d cs))) \<subseteq> set (remove1 d tc)"
      by (rule Cons.IH)
    also have "\<dots> \<subseteq> set tc" by (rule set_remove1_subset)
    finally show ?thesis using True by (simp add: removeFirst_eq)
  next
    case False
    with Cons.IH [of tc cs] show ?thesis by (simp add: removeFirst_eq)
  qed
qed

lemma removeDead_closed:
  "closed (snd (removeDead ds tc cs) c) = (closed (cs c) \<or> (c \<in> set ds \<and> c \<in> set tc))"
proof (induction ds arbitrary: tc cs)
  case Nil
  show ?case by simp
next
  case (Cons d ds)
  show ?case
  proof (cases "d \<in> set tc")
    case True
    have "closed (snd (removeDead (d # ds) tc cs) c) =
            (closed (closeConn d cs c) \<or> (c \<in> set ds \<and> c \<in> set (remove1 d tc)))"
      using True Cons.IH [of "remove1 d tc" "closeConn d cs"] by (simp add: removeFirst_eq)
    also have "\<dots> = (closed (cs c) \<or> (c \<in> set (d # ds) \<and> c \<in> set tc))"
      using True by (cases "c = d") (simp_all add: closeConn_closed)
    finally show ?thesis .
  next
    case False
    with Cons.IH [of tc cs] show ?thesis
      by (auto simp add: removeFirst_eq)
  qed
qed

lemma removeDead_received: "received (snd (removeDead ds tc cs) c) = received (cs c)"
  by (induction ds arbitrary: tc cs) (simp_all add: removeFirst_eq closeConn_received closeConn_writes)

lemma removeDead_writes: "writes (snd (removeDead ds tc cs) c) = writes (cs c)"
  by (induction ds arbitrary: tc cs) (simp_all add: removeFirst_eq closeConn_received closeConn_writes)


subsection \<open>broadcastToTail\<close>

lemma broadcastToTail_unfold:
  "broadcastToTail lib ok ref entry s =
     (if tailConns (sessionHeap s ref) = [] then s
      else if filter (writeFails ok (conns s)) (tailConns (sessionHeap s ref)) = []
      then s\<lparr>conns := snd (writeAll ok (Marshal lib entry) (tailConns (sessionHeap s ref)) (conns s))\<rparr>
      else s\<lparr>sessionHeap := (sessionHeap s)
               (ref := (sessionHeap s ref)
                  \<lparr>tailConns :=
                     fst (removeDead (filter (writeFails ok (conns s)) (tailConns (sessionHeap s ref)))
                            (tailConns (sessionHeap s ref))
                            (snd (writeAll ok (Marshal lib entry) (tailConns (sessionHeap s ref)) (conns s))))\<rparr>),
             conns :=
               snd (removeDead (filter (writeFails ok (conns s)) (tailConns (sessionHeap s ref)))
                      (tailConns (sessionHeap s ref))
                      (snd (writeAll ok (Marshal lib entry) (tailConns (sessionHeap s ref)) (conns s))))\<rparr>)"
proof -
  have "fst (writeAll ok (Marshal lib entry) (tailConns (sessionHeap s ref)) (conns s)) =
          filter (writeFails ok (conns s)) (tailConns (sessionHeap s ref))"
    by (rule writeAll_dead)
  then show ?thesis
    by (simp add: broadcastToTail_def Let_def case_prod_beta)
qed

lemma broadcastToTail_frame:
  "sessions (broadcastToTail lib ok ref entry s) = sessions s"
  "secret (broadcastToTail lib ok ref entry s) = secret s"
  "nextSession (broadcastToTail lib ok ref entry s) = nextSession s"
  "nextConn (broadcastToTail lib ok ref entry s) = nextConn s"
  by (simp_all add: broadcastToTail_unfold)

lemma broadcastToTail_session:
  "sessionHeap (broadcastToTail lib ok ref entry s) r =
     (sessionHeap s r)\<lparr>tailConns := tailConns (sessionHeap (broadcastToTail lib ok ref entry s) r)\<rparr>"
  by (simp add: broadcastToTail_unfold)

lemma broadcastToTail_tailConns_other:
  "r \<noteq> ref \<Longrightarrow>
     tailConns (sessionHeap (broadcastToTail lib ok ref entry s) r) = tailConns (sessionHeap s r)"
  by (simp add: broadcastToTail_unfold)

lemma broadcastToTail_tailConns_subset:
  "set (tailConns (sessionHeap (broadcastToTail lib ok ref entry s) r))
     \<subseteq> set (tailConns (sessionHeap s r))"
  by (simp add: broadcastToTail_unfold removeDead_subset)

lemma broadcastToTail_tailConns:
  assumes "distinct (tailConns (sessionHeap s ref))"
  shows "tailConns (sessionHeap (broadcastToTail lib ok ref entry s) ref) =
           filter (\<lambda>c. \<not> writeFails ok (conns s) c) (tailConns (sessionHeap s ref))"
proof (cases "filter (writeFails ok (conns s)) (tailConns (sessionHeap s ref)) = []")
  case True
  then have "\<forall>c \<in> set (tailConns (sessionHeap s ref)). \<not> writeFails ok (conns s) c"
    by (simp add: filter_empty_conv)
  then have "filter (\<lambda>c. \<not> writeFails ok (conns s) c) (tailConns (sessionHeap s ref)) =
               tailConns (sessionHeap s ref)"
    by simp
  with True show ?thesis
    by (simp add: broadcastToTail_unfold)
next
  case False
  have "filter (\<lambda>c. c \<notin> set (filter (writeFails ok (conns s)) (tailConns (sessionHeap s ref))))
          (tailConns (sessionHeap s ref)) =
        filter (\<lambda>c. \<not> writeFails ok (conns s) c) (tailConns (sessionHeap s ref))"
    by (rule filter_cong) auto
  with False assms show ?thesis
    by (simp add: broadcastToTail_unfold removeDead_fst)
qed

lemma broadcastToTail_closed:
  "closed (conns (broadcastToTail lib ok ref entry s) c) =
     (closed (conns s c) \<or> (c \<in> set (tailConns (sessionHeap s ref)) \<and> writeFails ok (conns s) c))"
proof (cases "filter (writeFails ok (conns s)) (tailConns (sessionHeap s ref)) = []")
  case True
  then have "\<forall>c \<in> set (tailConns (sessionHeap s ref)). \<not> writeFails ok (conns s) c"
    by (simp add: filter_empty_conv)
  with True show ?thesis
    by (auto simp add: broadcastToTail_unfold writeAll_closed)
next
  case False
  then show ?thesis
    by (auto simp add: broadcastToTail_unfold removeDead_closed writeAll_closed)
qed

lemma broadcastToTail_received:
  assumes "distinct (tailConns (sessionHeap s ref))"
  shows "received (conns (broadcastToTail lib ok ref entry s) c) =
           (if c \<in> set (tailConns (sessionHeap s ref)) \<and> \<not> writeFails ok (conns s) c
            then received (conns s c) @ [Marshal lib entry] else received (conns s c))"
proof (cases "c \<in> set (tailConns (sessionHeap s ref))")
  case True
  with assms show ?thesis
    by (auto simp add: broadcastToTail_unfold removeDead_received writeAll_received)
next
  case False
  then show ?thesis
    by (simp add: broadcastToTail_unfold removeDead_received writeAll_other)
qed

lemma broadcastToTail_writes_other:
  assumes "c \<notin> set (tailConns (sessionHeap s ref))"
  shows "writes (conns (broadcastToTail lib ok ref entry s) c) = writes (conns s c)"
  using assms by (simp add: broadcastToTail_unfold removeDead_writes writeAll_other)

lemma broadcastToTail_writes:
  assumes "distinct (tailConns (sessionHeap s ref))" and "c \<in> set (tailConns (sessionHeap s ref))"
  shows "writes (conns (broadcastToTail lib ok ref entry s) c) = Suc (writes (conns s c))"
  using assms by (auto simp add: broadcastToTail_unfold removeDead_writes writeAll_writes)


subsection \<open>Frames\<close>

lemma appendLog_simps:
  "sessions (appendLog ref entry s) = sessions s"
  "secret (appendLog ref entry s) = secret s"
  "nextSession (appendLog ref entry s) = nextSession s"
  "nextConn (appendLog ref entry s) = nextConn s"
  "conns (appendLog ref entry s) = conns s"
  "tailConns (sessionHeap (appendLog ref entry s) r) = tailConns (sessionHeap s r)"
  "conn (sessionHeap (appendLog ref entry s) r) = conn (sessionHeap s r)"
  "Logs (sessionHeap (appendLog ref entry s) r) =
     (if r = ref then Logs (sessionHeap s ref) @ [entry] else Logs (sessionHeap s r))"
  by (simp_all add: appendLog_def Let_def)

lemma frame_frame:
  "sessions (handleStream_frame lib ok now ref m s) = sessions s"
  "secret (handleStream_frame lib ok now ref m s) = secret s"
  "nextSession (handleStream_frame lib ok now ref m s) = nextSession s"
  "nextConn (handleStream_frame lib ok now ref m s) = nextConn s"
  by (simp_all add: handleStream_frame_def Let_def broadcastToTail_frame appendLog_simps)

lemma frame_Logs:
  "Logs (sessionHeap (handleStream_frame lib ok now ref m s) r) =
     (if r = ref then Logs (sessionHeap s ref) @ [parseEntry lib now m] else Logs (sessionHeap s r))"
proof -
  have "Logs (sessionHeap (handleStream_frame lib ok now ref m s) r) =
          Logs (sessionHeap (appendLog ref (parseEntry lib now m) s) r)"
    unfolding handleStream_frame_def Let_def
    by (subst broadcastToTail_session) simp
  then show ?thesis by (simp add: appendLog_simps)
qed

lemma handleStream_frame_run:
  "handleStream_frame lib ok now ref m s = run lib (frame lib ok now ref m) s"
  by (simp add: handleStream_frame_def frame_def Let_def)

lemma broadcastToTail_received_other:
  "c \<notin> set (tailConns (sessionHeap s ref)) \<Longrightarrow>
     received (conns (broadcastToTail lib ok ref entry s) c) = received (conns s c)"
  by (simp add: broadcastToTail_unfold removeDead_received writeAll_other)

lemma broadcastToTail_conn:
  "conn (sessionHeap (broadcastToTail lib ok ref entry s) x) = conn (sessionHeap s x)"
  by (subst broadcastToTail_session) simp

subsection \<open>Well-formedness of the initial server and after the steps of a frame\<close>

lemma wf_NewServer: "wf (NewServer sec)"
  by (simp add: wf_def NewServer_def zeroSession_def)

lemma wf_appendLog: "wf s \<Longrightarrow> wf (appendLog ref entry s)"
  by (simp add: wf_def appendLog_simps)

lemma wf_broadcastToTail:
  assumes "wf s"
  shows "wf (broadcastToTail lib ok ref entry s)"
proof -
  let ?s' = "broadcastToTail lib ok ref entry s"
  have sub: "set (tailConns (sessionHeap ?s' r)) \<subseteq> set (tailConns (sessionHeap s r))" for r
    by (rule broadcastToTail_tailConns_subset)
  have d: "distinct (tailConns (sessionHeap ?s' r))" for r
  proof (cases "r = ref")
    case True
    from assms have "distinct (tailConns (sessionHeap s ref))" by (simp add: wf_def)
    with True show ?thesis by (simp add: broadcastToTail_tailConns)
  next
    case False
    with assms show ?thesis by (simp add: broadcastToTail_tailConns_other wf_def)
  qed
  have b: "\<forall>c \<in> set (tailConns (sessionHeap ?s' r)). c < nextConn ?s'" for r
    using assms sub [of r] by (auto simp add: wf_def broadcastToTail_frame)
  have dj: "set (tailConns (sessionHeap ?s' r)) \<inter> set (tailConns (sessionHeap ?s' r')) = {}"
    if "r \<noteq> r'" for r r'
  proof -
    from assms that
    have "set (tailConns (sessionHeap s r)) \<inter> set (tailConns (sessionHeap s r')) = {}"
      by (simp add: wf_def)
    with sub [of r] sub [of r'] show ?thesis by blast
  qed
  from d b dj show ?thesis unfolding wf_def by blast
qed

subsection \<open>The shape of the connect and close steps\<close>

lemma handleStream_connect_rejected:
  assumes "\<not> (checkSecret s r \<and> Get (Query r) ''device'' \<noteq> [] \<and> up)"
  shows "snd (handleStream_connect now up r s) = s"
    and "fst (handleStream_connect now up r s) \<noteq> Upgraded ref c"
  using assms by (auto simp add: handleStream_connect_def Let_def)

lemma handleStream_connect_accepted:
  assumes "checkSecret s r" and "Get (Query r) ''device'' \<noteq> []"
  shows "fst (handleStream_connect now True r s) = Upgraded (nextSession s) (nextConn s)"
    and "sessions (snd (handleStream_connect now True r s)) =
           (sessions s)(Get (Query r) ''device'' \<mapsto> nextSession s)"
    and "secret (snd (handleStream_connect now True r s)) = secret s"
    and "nextSession (snd (handleStream_connect now True r s)) = Suc (nextSession s)"
    and "nextConn (snd (handleStream_connect now True r s)) = Suc (nextConn s)"
    and "conns (snd (handleStream_connect now True r s)) =
           (case producerOf s (Get (Query r) ''device'') of
              None \<Rightarrow> (conns s)(nextConn s := newConn)
            | Some oc \<Rightarrow> closeConn oc ((conns s)(nextConn s := newConn)))"
    and "sessionHeap (snd (handleStream_connect now True r s)) =
           (sessionHeap s)
             (nextSession s :=
                \<lparr>DeviceHash = Get (Query r) ''device'',
                 Name = (if Get (Query r) ''name'' = [] then ''Unknown Device''
                         else Get (Query r) ''name''),
                 IPv4 = Get (Query r) ''ipv4'', IPv6 = Get (Query r) ''ipv6'',
                 Connected = now, Logs = [], LogCount = 0, conn = Some (nextConn s),
                 tailConns = []\<rparr>)"
  using assms
  by (simp_all add: handleStream_connect_def Let_def upgradeConn_def producerOf_def
        split: option.split)

lemma handleTail_connect_rejected:
  assumes "\<not> (checkSecret s r \<and> TrimSuffix (TrimPrefix (Path r) ''/tail/'') ''/'' \<noteq> [] \<and>
              sessions s (TrimSuffix (TrimPrefix (Path r) ''/tail/'') ''/'') \<noteq> None \<and> up)"
  shows "snd (handleTail_connect up r s) = s"
    and "fst (handleTail_connect up r s) \<noteq> Upgraded ref c"
  using assms by (auto simp add: handleTail_connect_def Let_def split: option.split)

lemma handleTail_connect_accepted:
  assumes "checkSecret s r" and "TrimSuffix (TrimPrefix (Path r) ''/tail/'') ''/'' \<noteq> []"
    and "sessions s (TrimSuffix (TrimPrefix (Path r) ''/tail/'') ''/'') = Some ref"
  shows "handleTail_connect True r s =
           (Upgraded ref (nextConn s),
            s\<lparr>sessionHeap := (sessionHeap s)
                 (ref := (sessionHeap s ref)
                    \<lparr>tailConns := tailConns (sessionHeap s ref) @ [nextConn s]\<rparr>),
              conns := (conns s)(nextConn s := newConn),
              nextConn := Suc (nextConn s)\<rparr>)"
  using assms by (simp add: handleTail_connect_def Let_def upgradeConn_def)

lemma handleTail_close_eq:
  "handleTail_close ref c s =
     s\<lparr>sessionHeap := (sessionHeap s)
          (ref := (sessionHeap s ref)\<lparr>tailConns := remove1 c (tailConns (sessionHeap s ref))\<rparr>),
       conns := closeConn c (conns s)\<rparr>"
  by (simp add: handleTail_close_def Let_def removeFirst_eq remove1_idem)

subsection \<open>Well-formedness is preserved by every step\<close>

lemma wf_handleStream_connect:
  assumes "wf s"
  shows "wf (snd (handleStream_connect now up r s))"
proof (cases "checkSecret s r \<and> Get (Query r) ''device'' \<noteq> [] \<and> up")
  case False
  with assms show ?thesis by (simp add: handleStream_connect_rejected)
next
  case True
  then have acc: "checkSecret s r" "Get (Query r) ''device'' \<noteq> []" and up: "up = True"
    by simp_all
  let ?s' = "snd (handleStream_connect now True r s)"
  have tc: "tailConns (sessionHeap ?s' x) =
              (if x = nextSession s then [] else tailConns (sessionHeap s x))" for x
    by (simp add: handleStream_connect_accepted(7) [OF acc])
  have nc: "nextConn ?s' = Suc (nextConn s)"
    by (rule handleStream_connect_accepted(5) [OF acc])
  from assms have "wf ?s'"
    unfolding wf_def tc nc by (auto simp add: less_Suc_eq)
  with up show ?thesis by simp
qed

lemma wf_handleStream_close: "wf s \<Longrightarrow> wf (handleStream_close c s)"
  by (simp add: wf_def handleStream_close_def)

lemma wf_handleTail_connect:
  assumes "wf s"
  shows "wf (snd (handleTail_connect up r s))"
proof (cases "checkSecret s r \<and> TrimSuffix (TrimPrefix (Path r) ''/tail/'') ''/'' \<noteq> [] \<and>
              sessions s (TrimSuffix (TrimPrefix (Path r) ''/tail/'') ''/'') \<noteq> None \<and> up")
  case False
  with assms show ?thesis by (simp add: handleTail_connect_rejected)
next
  case True
  then obtain ref where acc: "checkSecret s r"
      "TrimSuffix (TrimPrefix (Path r) ''/tail/'') ''/'' \<noteq> []"
      "sessions s (TrimSuffix (TrimPrefix (Path r) ''/tail/'') ''/'') = Some ref"
    and up: "up = True"
    by auto
  let ?s' = "snd (handleTail_connect True r s)"
  have tc: "tailConns (sessionHeap ?s' x) =
              (if x = ref then tailConns (sessionHeap s ref) @ [nextConn s]
               else tailConns (sessionHeap s x))" for x
    by (simp add: handleTail_connect_accepted [OF acc])
  have nc: "nextConn ?s' = Suc (nextConn s)"
    by (simp add: handleTail_connect_accepted [OF acc])
  from assms have fresh: "nextConn s \<notin> set (tailConns (sessionHeap s x))" for x
    by (auto simp add: wf_def)
  from assms have "wf ?s'"
    unfolding wf_def tc nc using fresh by (auto simp add: less_Suc_eq)
  with up show ?thesis by simp
qed

lemma wf_handleTail_close:
  assumes "wf s"
  shows "wf (handleTail_close ref c s)"
proof -
  let ?s' = "handleTail_close ref c s"
  have tc: "tailConns (sessionHeap ?s' x) =
              (if x = ref then remove1 c (tailConns (sessionHeap s ref))
               else tailConns (sessionHeap s x))" for x
    by (simp add: handleTail_close_eq)
  have nc: "nextConn ?s' = nextConn s"
    by (simp add: handleTail_close_eq)
  have sub: "set (remove1 c (tailConns (sessionHeap s ref))) \<subseteq> set (tailConns (sessionHeap s ref))"
    by (rule set_remove1_subset)
  from assms show ?thesis
    unfolding wf_def tc nc using sub by (auto simp add: distinct_remove1) blast+
qed

lemma wf_step: "wf s \<Longrightarrow> wf (step lib e s)"
  by (cases e)
    (simp_all add: wf_handleStream_connect wf_appendLog wf_broadcastToTail wf_handleStream_close
       wf_handleTail_connect wf_handleTail_close)

lemma wf_run: "wf s \<Longrightarrow> wf (run lib es s)"
  by (induction es arbitrary: s) (simp_all add: wf_step)

text \<open>Every state the server reaches from its start is well-formed.\<close>

lemma wf_reachable: "wf (run lib es (NewServer sec))"
  by (intro wf_run wf_NewServer)

subsection \<open>A detached handle is never written again\<close>

lemma detached_step:
  assumes "detached s c"
  shows "detached (step lib e s) c \<and> writes (conns (step lib e s) c) = writes (conns s c)"
proof (cases e)
  case (StreamConnect now up r)
  show ?thesis
  proof (cases "checkSecret s r \<and> Get (Query r) ''device'' \<noteq> [] \<and> up")
    case False
    with assms StreamConnect show ?thesis by (simp add: handleStream_connect_rejected)
  next
    case True
    then have acc: "checkSecret s r" "Get (Query r) ''device'' \<noteq> []" and up: "up = True"
      by simp_all
    from assms have "c \<noteq> nextConn s" by (auto simp add: detached_def)
    with assms StreamConnect up show ?thesis
      by (auto simp add: detached_def handleStream_connect_accepted [OF acc] closeConn_writes
            split: option.split)
  qed
next
  case (StreamStore now ref m)
  with assms show ?thesis by (simp add: detached_def appendLog_simps)
next
  case (StreamForward ok ref entry)
  from assms have "c \<notin> set (tailConns (sessionHeap s ref))"
    by (simp add: detached_def)
  then have "writes (conns (broadcastToTail lib ok ref entry s) c) = writes (conns s c)"
    by (rule broadcastToTail_writes_other)
  moreover have "detached (broadcastToTail lib ok ref entry s) c"
    using assms broadcastToTail_tailConns_subset [of lib ok ref entry s]
    by (auto simp add: detached_def broadcastToTail_frame)
  ultimately show ?thesis using StreamForward by simp
next
  case (StreamClose c')
  with assms show ?thesis
    by (simp add: detached_def handleStream_close_def closeConn_writes)
next
  case (TailConnect up r)
  show ?thesis
  proof (cases "checkSecret s r \<and> TrimSuffix (TrimPrefix (Path r) ''/tail/'') ''/'' \<noteq> [] \<and>
                sessions s (TrimSuffix (TrimPrefix (Path r) ''/tail/'') ''/'') \<noteq> None \<and> up")
    case False
    with assms TailConnect show ?thesis by (simp add: handleTail_connect_rejected)
  next
    case True
    then obtain ref where acc: "checkSecret s r"
        "TrimSuffix (TrimPrefix (Path r) ''/tail/'') ''/'' \<noteq> []"
        "sessions s (TrimSuffix (TrimPrefix (Path r) ''/tail/'') ''/'') = Some ref"
      and up: "up = True"
      by auto
    from assms have "c \<noteq> nextConn s" by (auto simp add: detached_def)
    with assms TailConnect up show ?thesis
      by (auto simp add: detached_def handleTail_connect_accepted [OF acc])
  qed
next
  case (TailClose ref c')
  have "set (remove1 c' (tailConns (sessionHeap s ref))) \<subseteq> set (tailConns (sessionHeap s ref))"
    by (rule set_remove1_subset)
  with assms TailClose show ?thesis
    by (auto simp add: detached_def handleTail_close_eq closeConn_writes)
qed


subsection \<open>What every step preserves\<close>

lemma step_counters:
  "nextSession s \<le> nextSession (step lib e s) \<and> nextConn s \<le> nextConn (step lib e s)"
proof (cases e)
  case (StreamConnect now up r)
  show ?thesis
  proof (cases "checkSecret s r \<and> Get (Query r) ''device'' \<noteq> [] \<and> up")
    case False
    with StreamConnect show ?thesis by (simp add: handleStream_connect_rejected)
  next
    case True
    then have acc: "checkSecret s r" "Get (Query r) ''device'' \<noteq> []" and up: "up = True"
      by simp_all
    from StreamConnect up show ?thesis
      by (simp add: handleStream_connect_accepted [OF acc])
  qed
next
  case (StreamStore now ref m)
  then show ?thesis by (simp add: appendLog_simps)
next
  case (StreamForward ok ref entry)
  then show ?thesis by (simp add: broadcastToTail_frame)
next
  case (StreamClose c)
  then show ?thesis by (simp add: handleStream_close_def)
next
  case (TailConnect up r)
  show ?thesis
  proof (cases "checkSecret s r \<and> TrimSuffix (TrimPrefix (Path r) ''/tail/'') ''/'' \<noteq> [] \<and>
                sessions s (TrimSuffix (TrimPrefix (Path r) ''/tail/'') ''/'') \<noteq> None \<and> up")
    case False
    with TailConnect show ?thesis by (simp add: handleTail_connect_rejected)
  next
    case True
    then obtain ref where acc: "checkSecret s r"
        "TrimSuffix (TrimPrefix (Path r) ''/tail/'') ''/'' \<noteq> []"
        "sessions s (TrimSuffix (TrimPrefix (Path r) ''/tail/'') ''/'') = Some ref"
      and up: "up = True"
      by auto
    from TailConnect up show ?thesis
      by (simp add: handleTail_connect_accepted [OF acc])
  qed
next
  case (TailClose ref c)
  then show ?thesis by (simp add: handleTail_close_eq)
qed

lemma step_closed_mono:
  assumes "c < nextConn s" and "closed (conns s c)"
  shows "closed (conns (step lib e s) c)"
proof (cases e)
  case (StreamConnect now up r)
  show ?thesis
  proof (cases "checkSecret s r \<and> Get (Query r) ''device'' \<noteq> [] \<and> up")
    case False
    with StreamConnect assms show ?thesis by (simp add: handleStream_connect_rejected)
  next
    case True
    then have acc: "checkSecret s r" "Get (Query r) ''device'' \<noteq> []" and up: "up = True"
      by simp_all
    from StreamConnect up assms show ?thesis
      by (simp add: handleStream_connect_accepted [OF acc] closeConn_closed split: option.split)
  qed
next
  case (StreamStore now ref m)
  with assms show ?thesis by (simp add: appendLog_simps)
next
  case (StreamForward ok ref entry)
  with assms show ?thesis by (simp add: broadcastToTail_closed)
next
  case (StreamClose c')
  with assms show ?thesis by (simp add: handleStream_close_def closeConn_closed)
next
  case (TailConnect up r)
  show ?thesis
  proof (cases "checkSecret s r \<and> TrimSuffix (TrimPrefix (Path r) ''/tail/'') ''/'' \<noteq> [] \<and>
                sessions s (TrimSuffix (TrimPrefix (Path r) ''/tail/'') ''/'') \<noteq> None \<and> up")
    case False
    with TailConnect assms show ?thesis by (simp add: handleTail_connect_rejected)
  next
    case True
    then obtain ref where acc: "checkSecret s r"
        "TrimSuffix (TrimPrefix (Path r) ''/tail/'') ''/'' \<noteq> []"
        "sessions s (TrimSuffix (TrimPrefix (Path r) ''/tail/'') ''/'') = Some ref"
      and up: "up = True"
      by auto
    from TailConnect up assms show ?thesis
      by (simp add: handleTail_connect_accepted [OF acc])
  qed
next
  case (TailClose ref c')
  with assms show ?thesis by (simp add: handleTail_close_eq closeConn_closed)
qed

lemma step_conn_field:
  assumes "x < nextSession s"
  shows "conn (sessionHeap (step lib e s) x) = conn (sessionHeap s x)"
proof (cases e)
  case (StreamConnect now up r)
  show ?thesis
  proof (cases "checkSecret s r \<and> Get (Query r) ''device'' \<noteq> [] \<and> up")
    case False
    with StreamConnect show ?thesis by (simp add: handleStream_connect_rejected)
  next
    case True
    then have acc: "checkSecret s r" "Get (Query r) ''device'' \<noteq> []" and up: "up = True"
      by simp_all
    from StreamConnect up assms show ?thesis
      by (simp add: handleStream_connect_accepted [OF acc])
  qed
next
  case (StreamStore now ref m)
  then show ?thesis by (simp add: appendLog_simps)
next
  case (StreamForward ok ref entry)
  have "conn (sessionHeap (broadcastToTail lib ok ref entry s) x) = conn (sessionHeap s x)"
    by (subst broadcastToTail_session) simp
  with StreamForward show ?thesis by simp
next
  case (StreamClose c)
  then show ?thesis by (simp add: handleStream_close_def)
next
  case (TailConnect up r)
  show ?thesis
  proof (cases "checkSecret s r \<and> TrimSuffix (TrimPrefix (Path r) ''/tail/'') ''/'' \<noteq> [] \<and>
                sessions s (TrimSuffix (TrimPrefix (Path r) ''/tail/'') ''/'') \<noteq> None \<and> up")
    case False
    with TailConnect show ?thesis by (simp add: handleTail_connect_rejected)
  next
    case True
    then obtain ref where acc: "checkSecret s r"
        "TrimSuffix (TrimPrefix (Path r) ''/tail/'') ''/'' \<noteq> []"
        "sessions s (TrimSuffix (TrimPrefix (Path r) ''/tail/'') ''/'') = Some ref"
      and up: "up = True"
      by auto
    from TailConnect up show ?thesis
      by (simp add: handleTail_connect_accepted [OF acc])
  qed
next
  case (TailClose ref c)
  then show ?thesis by (simp add: handleTail_close_eq)
qed

text \<open>A step creates at most one producer session for the device.\<close>

lemma created_single:
  "created lib d [e] s = [] \<and> sessions (step lib e s) d = sessions s d \<or>
   created lib d [e] s = [(nextSession s, nextConn s)] \<and>
     sessions (step lib e s) d = Some (nextSession s) \<and>
     conn (sessionHeap (step lib e s) (nextSession s)) = Some (nextConn s) \<and>
     nextSession (step lib e s) = Suc (nextSession s) \<and>
     nextConn (step lib e s) = Suc (nextConn s) \<and>
     (\<forall>oc. producerOf s d = Some oc \<longrightarrow> closed (conns (step lib e s) oc))"
proof (cases e)
  case (StreamConnect now up r)
  show ?thesis
  proof (cases "checkSecret s r \<and> Get (Query r) ''device'' \<noteq> [] \<and> up")
    case False
    then have "snd (handleStream_connect now up r s) = s"
      and "\<And>ref c. fst (handleStream_connect now up r s) \<noteq> Upgraded ref c"
      by (rule handleStream_connect_rejected)+
    with StreamConnect show ?thesis
      by (simp split: Upgrade.split)
  next
    case True
    then have acc: "checkSecret s r" "Get (Query r) ''device'' \<noteq> []" and up: "up = True"
      by simp_all
    from StreamConnect up show ?thesis
      by (simp add: handleStream_connect_accepted [OF acc] closeConn_closed)
  qed
next
  case (StreamStore now ref m)
  then show ?thesis by (simp add: appendLog_simps)
next
  case (StreamForward ok ref entry)
  then show ?thesis by (simp add: broadcastToTail_frame)
next
  case (StreamClose c)
  then show ?thesis by (simp add: handleStream_close_def)
next
  case (TailConnect up r)
  show ?thesis
  proof (cases "checkSecret s r \<and> TrimSuffix (TrimPrefix (Path r) ''/tail/'') ''/'' \<noteq> [] \<and>
                sessions s (TrimSuffix (TrimPrefix (Path r) ''/tail/'') ''/'') \<noteq> None \<and> up")
    case False
    with TailConnect show ?thesis by (simp add: handleTail_connect_rejected)
  next
    case True
    then obtain ref where acc: "checkSecret s r"
        "TrimSuffix (TrimPrefix (Path r) ''/tail/'') ''/'' \<noteq> []"
        "sessions s (TrimSuffix (TrimPrefix (Path r) ''/tail/'') ''/'') = Some ref"
      and up: "up = True"
      by auto
    from TailConnect up show ?thesis
      by (simp add: handleTail_connect_accepted [OF acc])
  qed
next
  case (TailClose ref c)
  then show ?thesis by (simp add: handleTail_close_eq)
qed

lemma created_Cons:
  "created lib d (e # es) s = created lib d [e] s @ created lib d es (step lib e s)"
  by (cases e) simp_all

subsection \<open>Allocation\<close>

lemma allocated_NewServer: "allocated (NewServer sec)"
  by (simp add: allocated_def NewServer_def zeroSession_def)

lemma allocated_step:
  assumes "allocated s"
  shows "allocated (step lib e s)"
proof (cases e)
  case (StreamConnect now up r)
  show ?thesis
  proof (cases "checkSecret s r \<and> Get (Query r) ''device'' \<noteq> [] \<and> up")
    case False
    with assms StreamConnect show ?thesis by (simp add: handleStream_connect_rejected)
  next
    case True
    then have acc: "checkSecret s r" "Get (Query r) ''device'' \<noteq> []" and up: "up = True"
      by simp_all
    from assms StreamConnect up show ?thesis
      by (auto simp add: allocated_def handleStream_connect_accepted [OF acc] less_Suc_eq)
  qed
next
  case (StreamStore now ref m)
  with assms show ?thesis by (simp add: allocated_def appendLog_simps)
next
  case (StreamForward ok ref entry)
  with assms show ?thesis
    by (simp add: allocated_def broadcastToTail_frame broadcastToTail_conn)
next
  case (StreamClose c)
  with assms show ?thesis by (simp add: allocated_def handleStream_close_def)
next
  case (TailConnect up r)
  show ?thesis
  proof (cases "checkSecret s r \<and> TrimSuffix (TrimPrefix (Path r) ''/tail/'') ''/'' \<noteq> [] \<and>
                sessions s (TrimSuffix (TrimPrefix (Path r) ''/tail/'') ''/'') \<noteq> None \<and> up")
    case False
    with assms TailConnect show ?thesis by (simp add: handleTail_connect_rejected)
  next
    case True
    then obtain ref where acc: "checkSecret s r"
        "TrimSuffix (TrimPrefix (Path r) ''/tail/'') ''/'' \<noteq> []"
        "sessions s (TrimSuffix (TrimPrefix (Path r) ''/tail/'') ''/'') = Some ref"
      and up: "up = True"
      by auto
    from assms TailConnect up show ?thesis
      by (auto simp add: allocated_def handleTail_connect_accepted [OF acc] less_Suc_eq)
  qed
next
  case (TailClose ref c)
  with assms show ?thesis by (simp add: allocated_def handleTail_close_eq)
qed

lemma allocated_run: "allocated s \<Longrightarrow> allocated (run lib es s)"
  by (induction es arbitrary: s) (simp_all add: allocated_step)

lemma allocated_reachable: "allocated (run lib es (NewServer sec))"
  by (intro allocated_run allocated_NewServer)

subsection \<open>What a consumer handle receives in a step\<close>

lemma forwarded_Cons: "forwarded lib ref (e # es) = forwarded lib ref [e] @ forwarded lib ref es"
  by (cases e) simp_all

text \<open>Only a publish pass on a session that has the handle delivers to it.\<close>

lemma step_received_other:
  assumes "c < nextConn s"
    and "\<And>ok r entry. e = StreamForward ok r entry \<Longrightarrow> c \<notin> set (tailConns (sessionHeap s r))"
  shows "received (conns (step lib e s) c) = received (conns s c)"
proof (cases e)
  case (StreamConnect now up r)
  show ?thesis
  proof (cases "checkSecret s r \<and> Get (Query r) ''device'' \<noteq> [] \<and> up")
    case False
    with StreamConnect show ?thesis by (simp add: handleStream_connect_rejected)
  next
    case True
    then have acc: "checkSecret s r" "Get (Query r) ''device'' \<noteq> []" and up: "up = True"
      by simp_all
    from assms(1) StreamConnect up show ?thesis
      by (simp add: handleStream_connect_accepted [OF acc] closeConn_received split: option.split)
  qed
next
  case (StreamStore now ref m)
  then show ?thesis by (simp add: appendLog_simps)
next
  case (StreamForward ok ref entry)
  with assms(2) show ?thesis by (simp add: broadcastToTail_received_other)
next
  case (StreamClose c')
  then show ?thesis by (simp add: handleStream_close_def closeConn_received)
next
  case (TailConnect up r)
  show ?thesis
  proof (cases "checkSecret s r \<and> TrimSuffix (TrimPrefix (Path r) ''/tail/'') ''/'' \<noteq> [] \<and>
                sessions s (TrimSuffix (TrimPrefix (Path r) ''/tail/'') ''/'') \<noteq> None \<and> up")
    case False
    with TailConnect show ?thesis by (simp add: handleTail_connect_rejected)
  next
    case True
    then obtain ref where acc: "checkSecret s r"
        "TrimSuffix (TrimPrefix (Path r) ''/tail/'') ''/'' \<noteq> []"
        "sessions s (TrimSuffix (TrimPrefix (Path r) ''/tail/'') ''/'') = Some ref"
      and up: "up = True"
      by auto
    from assms(1) TailConnect up show ?thesis
      by (simp add: handleTail_connect_accepted [OF acc])
  qed
next
  case (TailClose ref c')
  then show ?thesis by (simp add: handleTail_close_eq closeConn_received)
qed

lemma detached_run_received:
  "detached s c \<Longrightarrow> received (conns (run lib es s) c) = received (conns s c)"
proof (induction es arbitrary: s)
  case Nil
  show ?case by simp
next
  case (Cons e es)
  from detached_step [OF Cons.prems, of lib e] have d: "detached (step lib e s) c" by simp
  from Cons.prems have "received (conns (step lib e s) c) = received (conns s c)"
    by (intro step_received_other) (simp_all add: detached_def)
  with Cons.IH [OF d] show ?case by simp
qed

text \<open>No step attaches a handle that is already allocated.\<close>

lemma step_tailConns_old:
  assumes "c < nextConn s" and "c \<in> set (tailConns (sessionHeap (step lib e s) r))"
  shows "c \<in> set (tailConns (sessionHeap s r))"
proof (cases e)
  case (StreamConnect now up r')
  show ?thesis
  proof (cases "checkSecret s r' \<and> Get (Query r') ''device'' \<noteq> [] \<and> up")
    case False
    with assms StreamConnect show ?thesis by (simp add: handleStream_connect_rejected)
  next
    case True
    then have acc: "checkSecret s r'" "Get (Query r') ''device'' \<noteq> []" and up: "up = True"
      by simp_all
    from assms StreamConnect up show ?thesis
      by (simp add: handleStream_connect_accepted [OF acc] split: if_splits)
  qed
next
  case (StreamStore now ref m)
  with assms show ?thesis by (simp add: appendLog_simps)
next
  case (StreamForward ok ref entry)
  with assms broadcastToTail_tailConns_subset [of lib ok ref entry s r] show ?thesis by auto
next
  case (StreamClose c')
  with assms show ?thesis by (simp add: handleStream_close_def)
next
  case (TailConnect up r')
  show ?thesis
  proof (cases "checkSecret s r' \<and> TrimSuffix (TrimPrefix (Path r') ''/tail/'') ''/'' \<noteq> [] \<and>
                sessions s (TrimSuffix (TrimPrefix (Path r') ''/tail/'') ''/'') \<noteq> None \<and> up")
    case False
    with assms TailConnect show ?thesis by (simp add: handleTail_connect_rejected)
  next
    case True
    then obtain ref where acc: "checkSecret s r'"
        "TrimSuffix (TrimPrefix (Path r') ''/tail/'') ''/'' \<noteq> []"
        "sessions s (TrimSuffix (TrimPrefix (Path r') ''/tail/'') ''/'') = Some ref"
      and up: "up = True"
      by auto
    from assms TailConnect up show ?thesis
      by (auto simp add: handleTail_connect_accepted [OF acc] split: if_splits)
  qed
next
  case (TailClose ref c')
  with assms set_remove1_subset [of c' "tailConns (sessionHeap s ref)"] show ?thesis
    by (auto simp add: handleTail_close_eq split: if_splits)
qed

text \<open>
  A step delivers to an attached handle exactly when it is a publish pass on its session
  that leaves the handle attached.
\<close>

lemma step_received:
  assumes "wf s" and "c \<in> set (tailConns (sessionHeap s ref))"
  shows "received (conns (step lib e s) c) =
           received (conns s c) @
             (if c \<in> set (tailConns (sessionHeap (step lib e s) ref)) then forwarded lib ref [e]
              else [])"
proof -
  from assms have bound: "c < nextConn s" by (auto simp add: wf_def)
  from assms have dist: "distinct (tailConns (sessionHeap s ref))" by (simp add: wf_def)
  have other: "c \<notin> set (tailConns (sessionHeap s r))" if "r \<noteq> ref" for r
  proof -
    from assms(1) that
    have "set (tailConns (sessionHeap s r)) \<inter> set (tailConns (sessionHeap s ref)) = {}"
      by (simp add: wf_def)
    with assms(2) show ?thesis by blast
  qed
  show ?thesis
  proof (cases "\<exists>ok entry. e = StreamForward ok ref entry")
    case True
    then obtain ok entry where e: "e = StreamForward ok ref entry" by blast
    from dist assms(2) show ?thesis
      by (simp add: e broadcastToTail_received broadcastToTail_tailConns)
  next
    case False
    then have "\<And>ok r entry. e = StreamForward ok r entry \<Longrightarrow> c \<notin> set (tailConns (sessionHeap s r))"
      using other by auto
    with bound have "received (conns (step lib e s) c) = received (conns s c)"
      by (rule step_received_other)
    moreover from False have "forwarded lib ref [e] = []"
      by (cases e) auto
    ultimately show ?thesis by simp
  qed
qed

lemma run_received_prefix:
  assumes "wf s" and "c \<in> set (tailConns (sessionHeap s ref))"
  shows "\<exists>n. received (conns (run lib es s) c) =
           received (conns s c) @ take n (forwarded lib ref es)"
  using assms
proof (induction es arbitrary: s)
  case Nil
  show ?case by simp
next
  case (Cons e es)
  let ?s' = "step lib e s"
  from Cons.prems(1) have wf': "wf ?s'" by (rule wf_step)
  from Cons.prems have bound: "c < nextConn s" by (auto simp add: wf_def)
  note rec = step_received [OF Cons.prems, of lib e]
  show ?case
  proof (cases "c \<in> set (tailConns (sessionHeap ?s' ref))")
    case True
    from Cons.IH [OF wf' True] obtain n
      where "received (conns (run lib es ?s') c) =
               received (conns ?s' c) @ take n (forwarded lib ref es)" ..
    with rec True
    have "received (conns (run lib (e # es) s) c) =
            received (conns s c) @
              take (length (forwarded lib ref [e]) + n) (forwarded lib ref [e] @ forwarded lib ref es)"
      by simp
    then show ?thesis
      by (subst forwarded_Cons) blast
  next
    case False
    have "detached ?s' c"
      unfolding detached_def
    proof (intro conjI allI)
      from bound step_counters [of s lib e] show "c < nextConn ?s'" by simp
    next
      fix r
      show "c \<notin> set (tailConns (sessionHeap ?s' r))"
      proof (cases "r = ref")
        case True
        with False show ?thesis by simp
      next
        case ne: False
        with Cons.prems(1)
        have "set (tailConns (sessionHeap s r)) \<inter> set (tailConns (sessionHeap s ref)) = {}"
          by (simp add: wf_def)
        with Cons.prems(2) have "c \<notin> set (tailConns (sessionHeap s r))" by blast
        with step_tailConns_old [OF bound, of lib e r] show ?thesis by blast
      qed
    qed
    then have "received (conns (run lib es ?s') c) = received (conns ?s' c)"
      by (rule detached_run_received)
    with rec False
    have "received (conns (run lib (e # es) s) c) =
            received (conns s c) @ take 0 (forwarded lib ref (e # es))"
      by simp
    then show ?thesis ..
  qed
qed

subsection \<open>A handle that is left alone stays attached and open\<close>

lemma undisturbed_step:
  assumes "wf s" and "ref < nextSession s"
    and "c \<in> set (tailConns (sessionHeap s ref))"
    and "\<not> closed (conns s c)"
    and "notProducer s c"
    and "undisturbed ref c e"
  shows "c \<in> set (tailConns (sessionHeap (step lib e s) ref)) \<and>
         \<not> closed (conns (step lib e s) c) \<and> notProducer (step lib e s) c"
proof -
  from assms(1,3) have bound: "c < nextConn s" by (auto simp add: wf_def)
  from assms(1) have dist: "distinct (tailConns (sessionHeap s ref))" by (simp add: wf_def)
  have other: "c \<notin> set (tailConns (sessionHeap s r))" if "r \<noteq> ref" for r
  proof -
    from assms(1) that
    have "set (tailConns (sessionHeap s r)) \<inter> set (tailConns (sessionHeap s ref)) = {}"
      by (simp add: wf_def)
    with assms(3) show ?thesis by blast
  qed
  show ?thesis
  proof (cases e)
    case (StreamConnect now up r)
    show ?thesis
    proof (cases "checkSecret s r \<and> Get (Query r) ''device'' \<noteq> [] \<and> up")
      case False
      with assms StreamConnect show ?thesis by (simp add: handleStream_connect_rejected)
    next
      case True
      then have acc: "checkSecret s r" "Get (Query r) ''device'' \<noteq> []" and up: "up = True"
        by simp_all
      have "oc \<noteq> c" if "producerOf s (Get (Query r) ''device'') = Some oc" for oc
        using that assms(5) by (auto simp add: producerOf_def notProducer_def split: option.splits)
      with assms(2-5) bound StreamConnect up show ?thesis
        by (auto simp add: notProducer_def handleStream_connect_accepted [OF acc] closeConn_closed
              split: option.split)
    qed
  next
    case (StreamStore now r m)
    with assms show ?thesis by (simp add: notProducer_def appendLog_simps)
  next
    case (StreamForward ok r entry)
    show ?thesis
    proof (cases "r = ref")
      case True
      with assms(6) StreamForward have "ok c" by simp
      with assms(4) have "\<not> writeFails ok (conns s) c" by (simp add: writeFails_def)
      with assms(3-5) dist True StreamForward show ?thesis
        by (simp add: notProducer_def broadcastToTail_tailConns broadcastToTail_closed
              broadcastToTail_frame broadcastToTail_conn)
    next
      case False
      with other [of r] assms(3-5) StreamForward show ?thesis
        by (simp add: notProducer_def broadcastToTail_tailConns_other broadcastToTail_closed
              broadcastToTail_frame broadcastToTail_conn)
    qed
  next
    case (StreamClose c')
    with assms show ?thesis
      by (simp add: notProducer_def handleStream_close_def closeConn_closed)
  next
    case (TailConnect up r)
    show ?thesis
    proof (cases "checkSecret s r \<and> TrimSuffix (TrimPrefix (Path r) ''/tail/'') ''/'' \<noteq> [] \<and>
                  sessions s (TrimSuffix (TrimPrefix (Path r) ''/tail/'') ''/'') \<noteq> None \<and> up")
      case False
      with assms TailConnect show ?thesis by (simp add: handleTail_connect_rejected)
    next
      case True
      then obtain ref' where acc: "checkSecret s r"
          "TrimSuffix (TrimPrefix (Path r) ''/tail/'') ''/'' \<noteq> []"
          "sessions s (TrimSuffix (TrimPrefix (Path r) ''/tail/'') ''/'') = Some ref'"
        and up: "up = True"
        by auto
      from assms(3-5) bound TailConnect up show ?thesis
        by (auto simp add: notProducer_def handleTail_connect_accepted [OF acc])
    qed
  next
    case (TailClose r c')
    with assms(3-6) show ?thesis
      by (auto simp add: notProducer_def handleTail_close_eq closeConn_closed)
  qed
qed

lemma run_received_undisturbed:
  assumes "wf s" and "ref < nextSession s"
    and "c \<in> set (tailConns (sessionHeap s ref))"
    and "\<not> closed (conns s c)"
    and "notProducer s c"
    and "\<forall>e \<in> set es. undisturbed ref c e"
  shows "received (conns (run lib es s) c) = received (conns s c) @ forwarded lib ref es"
  using assms
proof (induction es arbitrary: s)
  case Nil
  show ?case by simp
next
  case (Cons e es)
  let ?s' = "step lib e s"
  from Cons.prems(6) have e: "undisturbed ref c e" and es: "\<forall>e \<in> set es. undisturbed ref c e"
    by simp_all
  from undisturbed_step [OF Cons.prems(1-5) e, of lib]
  have 3: "c \<in> set (tailConns (sessionHeap ?s' ref))"
    and 4: "\<not> closed (conns ?s' c)" and 5: "notProducer ?s' c"
    by simp_all
  from Cons.prems(1) have 1: "wf ?s'" by (rule wf_step)
  from Cons.prems(2) step_counters [of s lib e] have 2: "ref < nextSession ?s'" by simp
  from step_received [OF Cons.prems(1,3), of lib e] 3
  have "received (conns ?s' c) = received (conns s c) @ forwarded lib ref [e]" by simp
  with Cons.IH [OF 1 2 3 4 5 es] show ?case
    by (simp add: forwarded_Cons [of lib ref e es])
qed

subsection \<open>The producer sessions of a device\<close>

lemma producersInv_step:
  assumes "producersInv d hist s"
  shows "producersInv d (hist @ created lib d [e] s) (step lib e s)"
proof -
  let ?s' = "step lib e s"
  have cnt: "nextSession s \<le> nextSession ?s'" "nextConn s \<le> nextConn ?s'"
    using step_counters [of s lib e] by simp_all
  from assms have bound: "\<forall>p \<in> set hist. fst p < nextSession s \<and> snd p < nextConn s"
    by (simp add: producersInv_def)
  from assms have old: "\<forall>p \<in> set (butlast hist). closed (conns s (snd p)) \<and> fst p \<noteq> fst (last hist)"
    by (simp add: producersInv_def)
  have old': "\<forall>p \<in> set (butlast hist). closed (conns ?s' (snd p))"
  proof
    fix p assume p: "p \<in> set (butlast hist)"
    then have "p \<in> set hist" by (rule in_set_butlastD)
    with bound have "snd p < nextConn s" by simp
    moreover from old p have "closed (conns s (snd p))" by simp
    ultimately show "closed (conns ?s' (snd p))" by (rule step_closed_mono)
  qed
  from created_single [of lib d e s] show ?thesis
  proof (elim disjE conjE)
    assume c: "created lib d [e] s = []" and ss: "sessions ?s' d = sessions s d"
    have "hist \<noteq> [] \<longrightarrow>
            sessions ?s' d = Some (fst (last hist)) \<and>
            conn (sessionHeap ?s' (fst (last hist))) = Some (snd (last hist))"
    proof
      assume ne: "hist \<noteq> []"
      then have "last hist \<in> set hist" by simp
      with bound have "fst (last hist) < nextSession s" by simp
      then have "conn (sessionHeap ?s' (fst (last hist))) = conn (sessionHeap s (fst (last hist)))"
        by (rule step_conn_field)
      with assms ne ss show "sessions ?s' d = Some (fst (last hist)) \<and>
            conn (sessionHeap ?s' (fst (last hist))) = Some (snd (last hist))"
        by (simp add: producersInv_def)
    qed
    moreover from bound cnt have "\<forall>p \<in> set hist. fst p < nextSession ?s' \<and> snd p < nextConn ?s'"
      by auto
    ultimately show ?thesis using old old' c
      by (simp add: producersInv_def)
  next
    assume c: "created lib d [e] s = [(nextSession s, nextConn s)]"
      and ss: "sessions ?s' d = Some (nextSession s)"
      and cf: "conn (sessionHeap ?s' (nextSession s)) = Some (nextConn s)"
      and ns: "nextSession ?s' = Suc (nextSession s)"
      and nc: "nextConn ?s' = Suc (nextConn s)"
      and ev: "\<forall>oc. producerOf s d = Some oc \<longrightarrow> closed (conns ?s' oc)"
    have closed_all: "\<forall>p \<in> set hist. closed (conns ?s' (snd p)) \<and> fst p \<noteq> nextSession s"
    proof
      fix p assume p: "p \<in> set hist"
      with bound have ne: "fst p \<noteq> nextSession s" by auto
      from p have hne: "hist \<noteq> []" by auto
      have "closed (conns ?s' (snd p))"
      proof (cases "p \<in> set (butlast hist)")
        case True
        with old' show ?thesis by simp
      next
        case False
        with p hne have "p = last hist"
          by (metis append_butlast_last_id in_set_conv_decomp_first rotate1.simps(2) set_ConsD
              set_rotate1)
        moreover from assms hne have "producerOf s d = Some (snd (last hist))"
          by (simp add: producersInv_def producerOf_def)
        ultimately show ?thesis using ev by simp
      qed
      with ne show "closed (conns ?s' (snd p)) \<and> fst p \<noteq> nextSession s" by simp
    qed
    from bound have "\<forall>p \<in> set hist. fst p < Suc (nextSession s) \<and> snd p < Suc (nextConn s)"
      by auto
    with closed_all ss cf ns nc c show ?thesis
      by (simp add: producersInv_def)
  qed
qed

lemma producersInv_run:
  "producersInv d hist s \<Longrightarrow> producersInv d (hist @ created lib d es s) (run lib es s)"
proof (induction es arbitrary: s hist)
  case Nil
  then show ?case by simp
next
  case (Cons e es)
  from Cons.prems have "producersInv d (hist @ created lib d [e] s) (step lib e s)"
    by (rule producersInv_step)
  from Cons.IH [OF this] show ?case
    by (simp add: created_Cons [of lib d e es s])
qed

section \<open>The filters of handleLogs\<close>

lemma sinceLoop_filter: "sinceLoop cutoff logs = filter (\<lambda>e. Timestamp e > cutoff) logs"
  by (induction logs) (simp_all add: After_def)

lemma regexLoop_filter: "regexLoop re logs = filter (\<lambda>e. re (Message e)) logs"
  by (induction logs) simp_all

lemma sinceLoop_cong:
  "\<forall>e \<in> set logs. After (Timestamp e) c1 = After (Timestamp e) c2 \<Longrightarrow>
     sinceLoop c1 logs = sinceLoop c2 logs"
  by (induction logs) simp_all

text \<open>Negation of a duration is exact except at the least \<open>int64\<close>, where it wraps.\<close>

lemma sint_neg64:
  fixes d :: "64 word"
  assumes "d \<noteq> - 9223372036854775808"
  shows "sint (- d) = - sint d"
proof -
  have lo: "- (2 ^ 63) \<le> sint d" and hi: "sint d < 2 ^ 63"
    using sint_ge [of d] sint_lt [of d] by simp_all
  have "sint d \<noteq> - (2 ^ 63)"
  proof
    assume "sint d = - (2 ^ 63)"
    then have "word_of_int (sint d) = (word_of_int (- (2 ^ 63)) :: 64 word)" by simp
    then have "d = - 9223372036854775808" by simp
    with assms show False by simp
  qed
  with lo hi have "- (2 ^ 63) \<le> - sint d" "- sint d < 2 ^ 63" by simp_all
  then have "signed_take_bit 63 (- sint d) = - sint d"
    by (simp add: signed_take_bit_int_eq_self)
  then show ?thesis
    by (simp add: sint_word_ariths)
qed

lemma sinceFilter_strict:
  "d \<noteq> - 9223372036854775808 \<Longrightarrow>
     sinceFilter now d logs = filter (\<lambda>e. Timestamp e > now - sint d) logs"
  by (simp add: sinceFilter_def sinceLoop_filter Add_def sint_neg64)

text \<open>The example of the specification: five minutes are 300000000000 nanoseconds.\<close>

lemma sinceFilter_five_minutes:
  "sinceFilter t 300000000000
     [\<lparr>Timestamp = t - 600000000000, Message = a\<rparr>,
      \<lparr>Timestamp = t - 120000000000, Message = b\<rparr>,
      \<lparr>Timestamp = t - 10000000000, Message = c\<rparr>] =
     [\<lparr>Timestamp = t - 120000000000, Message = b\<rparr>,
      \<lparr>Timestamp = t - 10000000000, Message = c\<rparr>]"
  by (simp add: sinceFilter_def Add_def After_def)

section \<open>Evaluation of the concrete inputs\<close>

lemma connected_eq:
  "connected =
     \<lparr>sessions = [''abc'' \<mapsto> 0], secret = ''k'',
      sessionHeap = (\<lambda>_. zeroSession)
        (0 := \<lparr>DeviceHash = ''abc'', Name = ''Unknown Device'', IPv4 = [], IPv6 = [],
               Connected = 0, Logs = [], LogCount = 0, conn = Some 0, tailConns = []\<rparr>),
      nextSession = Suc 0, conns = (\<lambda>_. newConn)(0 := newConn), nextConn = Suc 0\<rparr>"
  by (simp add: connected_def handleStream_connect_def streamReq_def NewServer_def
        checkSecret_def Get_def upgradeConn_def Let_def)

lemma connect_result: "fst (handleStream_connect 0 True streamReq (NewServer ''k'')) = Upgraded 0 0"
  by (simp add: handleStream_connect_def streamReq_def NewServer_def
        checkSecret_def Get_def upgradeConn_def Let_def)

lemma booted_Logs: "Logs (sessionHeap booted 0) = [\<lparr>Timestamp = 1000, Message = ''boot''\<rparr>]"
  by (simp add: booted_def frame_Logs connected_eq parseEntry_def testLib_def IsZero_def)

lemma booted_frame: "sessions booted = [''abc'' \<mapsto> 0]" "secret booted = ''k''"
  by (simp_all add: booted_def frame_frame connected_eq)

lemma wf_connected: "wf connected"
  unfolding connected_def by (intro wf_handleStream_connect wf_NewServer)



lemma reconnected_eq:
  "reconnected =
     \<lparr>sessions = [''abc'' \<mapsto> Suc 0], secret = ''k'',
      sessionHeap = (\<lambda>_. zeroSession)
        (0 := \<lparr>DeviceHash = ''abc'', Name = ''Unknown Device'', IPv4 = [], IPv6 = [],
               Connected = 0, Logs = [], LogCount = 0, conn = Some 0, tailConns = [Suc 0]\<rparr>,
         Suc 0 := \<lparr>DeviceHash = ''abc'', Name = ''Unknown Device'', IPv4 = [], IPv6 = [],
               Connected = 5, Logs = [], LogCount = 0, conn = Some 2, tailConns = []\<rparr>),
      nextSession = 2,
      conns = (\<lambda>_. newConn)(0 := newConn\<lparr>closed := True\<rparr>, Suc 0 := newConn, 2 := newConn),
      nextConn = 3\<rparr>"
  by (simp add: reconnected_def connected_eq handleTail_connect_def handleStream_connect_def
        tailReq_def streamReq_def checkSecret_def Get_def TrimPrefix_def TrimSuffix_def
        upgradeConn_def closeConn_def Let_def numeral_2_eq_2 numeral_3_eq_3 fun_upd_twist)

lemma raced_eq:
  "raced =
     \<lparr>sessions = [''abc'' \<mapsto> 0], secret = ''k'',
      sessionHeap = (\<lambda>_. zeroSession)
        (0 := \<lparr>DeviceHash = ''abc'', Name = ''Unknown Device'', IPv4 = [], IPv6 = [],
               Connected = 0, Logs = [\<lparr>Timestamp = 1, Message = ''E1''\<rparr>], LogCount = Suc 0,
               conn = Some 0, tailConns = [Suc 0]\<rparr>),
      nextSession = Suc 0,
      conns = (\<lambda>_. newConn)
        (0 := newConn,
         Suc 0 := \<lparr>closed = False, received = [''E1''], writes = Suc 0\<rparr>),
      nextConn = 2\<rparr>"
  by (simp add: raced_def connected_eq appendLog_def parseEntry_def testLib_def IsZero_def
        handleTail_connect_def tailReq_def checkSecret_def Get_def TrimPrefix_def TrimSuffix_def
        upgradeConn_def broadcastToTail_def WriteMessage_def newConn_def Let_def numeral_2_eq_2)

lemma allocated_connected: "allocated connected"
  by (simp add: allocated_def connected_eq zeroSession_def)

lemma twoFrames_frame:
  "sessions twoFrames = sessions connected" "secret twoFrames = secret connected"
  "nextConn twoFrames = nextConn connected"
  by (simp_all add: twoFrames_def frame_def appendLog_simps broadcastToTail_frame)

lemma twoFrames_Logs:
  "Logs (sessionHeap twoFrames 0) =
     [\<lparr>Timestamp = 1, Message = ''E1''\<rparr>, \<lparr>Timestamp = 2, Message = ''E2''\<rparr>]"
  by (simp add: twoFrames_def frame_def connected_eq appendLog_def broadcastToTail_def
        parseEntry_def testLib_def IsZero_def Let_def)

section \<open>The gateway checks of the producer endpoint\<close>

text \<open>
  Claim C8. A producer connect whose \<open>secret\<close> parameter differs from the configured
  secret, or is missing while a secret is configured (\<open>main\<close> refuses to start without
  one), is answered with 401; one with a valid secret and a missing or empty \<open>device\<close>
  parameter is answered with 400. In each case the state of the server after the
  request is the state before it: no session is created, replaced or changed.
\<close>

theorem handleStream_connect_rejects:
  "(Get (Query r) ''secret'' \<noteq> secret s \<longrightarrow>
      handleStream_connect now up r s = (Rejected (httpError ''Unauthorized'' 401), s)) \<and>
   (map_of (Query r) ''secret'' = None \<and> secret s \<noteq> [] \<longrightarrow>
      handleStream_connect now up r s = (Rejected (httpError ''Unauthorized'' 401), s)) \<and>
   (Get (Query r) ''secret'' = secret s \<and> Get (Query r) ''device'' = [] \<longrightarrow>
      handleStream_connect now up r s =
        (Rejected (httpError ''Missing device parameter'' 400), s))"
  by (auto simp add: handleStream_connect_def checkSecret_def Get_def)

theorem handleStream_connect_rejects_witness:
  "Get (Query \<lparr>Path = ''/stream'', Query = [(''device'', ''abc''), (''secret'', ''x'')]\<rparr>) ''secret''
      \<noteq> secret (NewServer ''k'') \<and>
   handleStream_connect 0 True
      \<lparr>Path = ''/stream'', Query = [(''device'', ''abc''), (''secret'', ''x'')]\<rparr> (NewServer ''k'') =
     (Rejected (httpError ''Unauthorized'' 401), NewServer ''k'') \<and>
   map_of (Query \<lparr>Path = ''/stream'', Query = [(''device'', ''abc'')]\<rparr>) ''secret'' = None \<and>
   secret (NewServer ''k'') \<noteq> [] \<and>
   handleStream_connect 0 True \<lparr>Path = ''/stream'', Query = [(''device'', ''abc'')]\<rparr> (NewServer ''k'') =
     (Rejected (httpError ''Unauthorized'' 401), NewServer ''k'') \<and>
   Get (Query \<lparr>Path = ''/stream'', Query = [(''secret'', ''k'')]\<rparr>) ''secret'' = secret (NewServer ''k'') \<and>
   Get (Query \<lparr>Path = ''/stream'', Query = [(''secret'', ''k'')]\<rparr>) ''device'' = [] \<and>
   handleStream_connect 0 True \<lparr>Path = ''/stream'', Query = [(''secret'', ''k'')]\<rparr> (NewServer ''k'') =
     (Rejected (httpError ''Missing device parameter'' 400), NewServer ''k'')"
  using handleStream_connect_rejects
          [of "\<lparr>Path = ''/stream'', Query = [(''device'', ''abc''), (''secret'', ''x'')]\<rparr>"
              "NewServer ''k''" 0 True]
        handleStream_connect_rejects
          [of "\<lparr>Path = ''/stream'', Query = [(''device'', ''abc'')]\<rparr>" "NewServer ''k''" 0 True]
        handleStream_connect_rejects
          [of "\<lparr>Path = ''/stream'', Query = [(''secret'', ''k'')]\<rparr>" "NewServer ''k''" 0 True]
  by (simp add: Get_def NewServer_def)

section \<open>The health endpoint\<close>

lemma handleHealth_authorized:
  "checkSecret s r \<Longrightarrow>
     handleHealth now r s =
       \<lparr>Status = 200, ContentType = ''application/json'',
        Body = JsonHealth ''ok'' (card (dom (sessions s))) now\<rparr>"
  by (simp add: handleHealth_def)

text \<open>
  Claim C2 says that \<open>GET /health\<close> answers with the status and the session count
  whether or not a secret is given. \<open>handleHealth\<close> starts with the same \<open>checkSecret\<close>
  guard as the other handlers: a request without the \<open>secret\<close> parameter to a server
  whose secret is \<open>dev-secret\<close> is answered with 401 and no status.
\<close>

theorem handleHealth_without_secret:
  "handleHealth now \<lparr>Path = ''/health'', Query = []\<rparr> (NewServer ''dev-secret'') =
     httpError ''Unauthorized'' 401"
  by (simp add: handleHealth_def checkSecret_def Get_def NewServer_def)

section \<open>Ingestion of producer frames\<close>

text \<open>
  Claim C7. Every inbound frame appends exactly one entry to the session of its
  producer. When the payload does not decode, the entry carries the raw payload as its
  message and the arrival time as its timestamp; when it decodes with an absent (zero)
  timestamp, the decoded message is stored with the arrival time; otherwise the decoded
  entry is stored as it is.
\<close>

theorem frame_never_rejected:
  "Logs (sessionHeap (handleStream_frame lib ok now ref m s) ref) =
     Logs (sessionHeap s ref) @
       [case Unmarshal lib m of
          None \<Rightarrow> \<lparr>Timestamp = now, Message = m\<rparr>
        | Some e \<Rightarrow>
            if Timestamp e = 0 then \<lparr>Timestamp = now, Message = Message e\<rparr> else e]"
  by (simp add: frame_Logs parseEntry_def IsZero_def Let_def split: option.split)

section \<open>The end of a producer connection\<close>

text \<open>
  Claim C3 says that when the producer's read fails the session stays in the registry
  unchanged except for its producer handle, which is set to null. The deferred function
  of \<open>handleStream\<close> only closes the connection; no statement of the server assigns the
  \<open>conn\<close> field after the session is built. After the producer of the example connects
  and its read fails, the session still holds handle 0.
\<close>

theorem producer_close_not_nulled:
  "fst (handleStream_connect 0 True streamReq (NewServer ''k'')) = Upgraded 0 0 \<and>
   conn (sessionHeap (handleStream_close 0 connected) 0) \<noteq> None"
  by (simp add: connect_result connected_eq handleStream_close_def)

text \<open>
  Claim C3, amended. When the producer's read fails, the registry and every session
  object stay as they are, the producer handle field included (it keeps referring to
  the connection); the only change is that this connection is closed.
\<close>

theorem producer_close_frame:
  "sessions (handleStream_close c s) = sessions s \<and>
   sessionHeap (handleStream_close c s) = sessionHeap s \<and>
   conn (sessionHeap (handleStream_close c s) ref) = conn (sessionHeap s ref) \<and>
   conns (handleStream_close c s) = (conns s)(c := (conns s c)\<lparr>closed := True\<rparr>)"
  by (simp add: handleStream_close_def closeConn_def)

section \<open>The time filter\<close>

text \<open>
  Claim C6 says that for every parsable duration \<open>d\<close> the time filter keeps exactly the
  entries after \<open>now - d\<close>. The handler computes the cutoff as \<open>now.Add(-duration)\<close>,
  and the negation of the least \<open>int64\<close>, which \<open>time.ParseDuration\<close> returns for
  \<open>-2562047h47m16.854775808s\<close>, is that number again: the cutoff lies 2^63 nanoseconds
  in the past instead of in the future, and the entry of time 1000 is returned to a
  request at time 2000 although it is not after \<open>now - d\<close>. (For every other duration the filter is exact,
  \<open>sinceFilter_strict\<close>, and the example with five minutes holds,
  \<open>sinceFilter_five_minutes\<close>.)
\<close>

theorem sinceFilter_least_duration:
  "handleLogs testLib 2000 (logsReq [(''since'', ''-2562047h47m16.854775808s'')]) booted =
     \<lparr>Status = 200, ContentType = ''application/json'',
      Body = JsonLogs [\<lparr>Timestamp = 1000, Message = ''boot''\<rparr>]\<rparr> \<and>
   sinceFilter 2000 (- 9223372036854775808) [\<lparr>Timestamp = 1000, Message = ''boot''\<rparr>] =
     [\<lparr>Timestamp = 1000, Message = ''boot''\<rparr>] \<and>
   \<not> (1000 > (2000::int) - sint (- 9223372036854775808 :: 64 word))"
  by (simp add: handleLogs_def Let_def TrimPrefix_def TrimSuffix_def booted_frame booted_Logs
        checkSecret_def sinceFilter_def Add_def After_def testLib_def Get_def logsReq_def)

section \<open>Queries\<close>

text \<open>
  Claim C10. For an authenticated query of a known device, a \<open>since\<close> parameter that
  does not parse, or (with \<open>since\<close> absent or parsable) a \<open>regex\<close> parameter that does
  not compile, makes the whole response the 400 error with the message of the failure:
  the response carries no entry. The handler returns a response only; it does not
  change the server.
\<close>

theorem handleLogs_bad_filter:
  assumes "checkSecret s r"
    and "TrimSuffix (TrimPrefix (Path r) ''/logs/'') ''/'' \<noteq> []"
    and "sessions s (TrimSuffix (TrimPrefix (Path r) ''/logs/'') ''/'') = Some ref"
  shows
    "(Get (Query r) ''since'' \<noteq> [] \<and> ParseDuration lib (Get (Query r) ''since'') = Inl err \<longrightarrow>
        handleLogs lib now r s = httpError (''Invalid since parameter: '' @ err) 400) \<and>
     ((Get (Query r) ''since'' = [] \<or> ParseDuration lib (Get (Query r) ''since'') = Inr d) \<and>
      Get (Query r) ''regex'' \<noteq> [] \<and> Compile lib (Get (Query r) ''regex'') = Inl err \<longrightarrow>
        handleLogs lib now r s = httpError (''Invalid regex: '' @ err) 400)"
  using assms by (auto simp add: handleLogs_def Let_def)

theorem handleLogs_bad_filter_witness:
  "checkSecret connected (logsReq [(''since'', ''soon'')]) \<and>
   TrimSuffix (TrimPrefix (Path (logsReq [(''since'', ''soon'')])) ''/logs/'') ''/'' \<noteq> [] \<and>
   sessions connected (TrimSuffix (TrimPrefix (Path (logsReq [(''since'', ''soon'')])) ''/logs/'') ''/'')
     = Some 0 \<and>
   Get (Query (logsReq [(''since'', ''soon'')])) ''since'' \<noteq> [] \<and>
   ParseDuration testLib (Get (Query (logsReq [(''since'', ''soon'')])) ''since'')
     = Inl ''time: invalid duration'' \<and>
   handleLogs testLib 7 (logsReq [(''since'', ''soon'')]) connected =
     httpError ''Invalid since parameter: time: invalid duration'' 400 \<and>
   checkSecret connected (logsReq [(''since'', ''5m''), (''regex'', ''('')]) \<and>
   ParseDuration testLib (Get (Query (logsReq [(''since'', ''5m''), (''regex'', ''('')])) ''since'')
     = Inr 300000000000 \<and>
   Get (Query (logsReq [(''since'', ''5m''), (''regex'', ''('')])) ''regex'' \<noteq> [] \<and>
   Compile testLib (Get (Query (logsReq [(''since'', ''5m''), (''regex'', ''('')])) ''regex'')
     = Inl ''missing closing )'' \<and>
   handleLogs testLib 7 (logsReq [(''since'', ''5m''), (''regex'', ''('')]) connected =
     httpError ''Invalid regex: missing closing )'' 400"
  using handleLogs_bad_filter
          [of connected "logsReq [(''since'', ''soon'')]" 0 testLib "''time: invalid duration''" 7 0]
        handleLogs_bad_filter
          [of connected "logsReq [(''since'', ''5m''), (''regex'', ''('')]" 0 testLib
              "''missing closing )''" 7 300000000000]
  by (simp add: TrimPrefix_def TrimSuffix_def connected_eq checkSecret_def logsReq_def Get_def
        testLib_def)

text \<open>
  Claim C9 says that two consecutive queries with the same parameters and no entry
  appended in between return the same output. With a \<open>since\<close> parameter the cutoff moves
  with the clock: the entry of time 1000 is within five minutes of the first request and
  one nanosecond too old for the second, on the same state.
\<close>

theorem handleLogs_since_depends_on_clock:
  "handleLogs testLib 300000000999 (logsReq [(''since'', ''5m'')]) booted \<noteq>
   handleLogs testLib 300000001000 (logsReq [(''since'', ''5m'')]) booted"
  by (simp add: handleLogs_def Let_def TrimPrefix_def TrimSuffix_def booted_frame booted_Logs
        checkSecret_def sinceFilter_def Add_def After_def testLib_def Get_def logsReq_def)

text \<open>
  Claim C9, amended. Two queries with the same parameters, served from states with the
  same secret and the same stored entries (or no session) for the device of the path,
  return the same output provided that, when a \<open>since\<close> parameter is present and
  parses, no stored entry crosses the cutoff between the two clock readings: each entry
  is after the cutoff of the first request exactly when it is after the cutoff of the
  second. Whatever else happened between the requests does not matter.
\<close>

theorem handleLogs_idempotent:
  assumes "secret s1 = secret s2"
    and "map_option (\<lambda>ref. Logs (sessionHeap s1 ref))
           (sessions s1 (TrimSuffix (TrimPrefix (Path r) ''/logs/'') ''/'')) =
         map_option (\<lambda>ref. Logs (sessionHeap s2 ref))
           (sessions s2 (TrimSuffix (TrimPrefix (Path r) ''/logs/'') ''/''))"
    and "Get (Query r) ''since'' = [] \<or>
         (\<forall>ref d. sessions s1 (TrimSuffix (TrimPrefix (Path r) ''/logs/'') ''/'') = Some ref \<longrightarrow>
            ParseDuration lib (Get (Query r) ''since'') = Inr d \<longrightarrow>
            (\<forall>e \<in> set (Logs (sessionHeap s1 ref)).
               After (Timestamp e) (Add now1 (- d)) = After (Timestamp e) (Add now2 (- d))))"
  shows "handleLogs lib now1 r s1 = handleLogs lib now2 r s2"
proof (cases "sessions s1 (TrimSuffix (TrimPrefix (Path r) ''/logs/'') ''/'')")
  case None
  with assms(2) have "sessions s2 (TrimSuffix (TrimPrefix (Path r) ''/logs/'') ''/'') = None"
    by simp
  with None assms(1) show ?thesis
    by (simp add: handleLogs_def Let_def checkSecret_def)
next
  case (Some r1)
  with assms(2) obtain r2
    where r2: "sessions s2 (TrimSuffix (TrimPrefix (Path r) ''/logs/'') ''/'') = Some r2"
      and logs: "Logs (sessionHeap s1 r1) = Logs (sessionHeap s2 r2)"
    by (cases "sessions s2 (TrimSuffix (TrimPrefix (Path r) ''/logs/'') ''/'')") auto
  have filt: "sinceFilter now1 d (Logs (sessionHeap s2 r2)) =
              sinceFilter now2 d (Logs (sessionHeap s2 r2))"
    if "Get (Query r) ''since'' \<noteq> []" and "ParseDuration lib (Get (Query r) ''since'') = Inr d"
    for d
  proof -
    from assms(3) that Some
    have "\<forall>e \<in> set (Logs (sessionHeap s1 r1)).
            After (Timestamp e) (Add now1 (- d)) = After (Timestamp e) (Add now2 (- d))"
      by simp
    then show ?thesis
      unfolding sinceFilter_def logs by (rule sinceLoop_cong)
  qed
  show ?thesis
  proof (cases "Get (Query r) ''since'' = []")
    case True
    with Some r2 logs assms(1) show ?thesis
      by (simp add: handleLogs_def Let_def checkSecret_def)
  next
    case False
    show ?thesis
    proof (cases "ParseDuration lib (Get (Query r) ''since'')")
      case (Inl err)
      with False Some r2 assms(1) show ?thesis
        by (simp add: handleLogs_def Let_def checkSecret_def)
    next
      case (Inr d)
      with False Some r2 logs assms(1) filt [OF False Inr] show ?thesis
        by (simp add: handleLogs_def Let_def checkSecret_def)
    qed
  qed
qed

theorem handleLogs_idempotent_witness:
  "secret booted = secret (handleStream_close 0 booted) \<and>
   handleLogs testLib 300000000500 (logsReq [(''since'', ''5m'')]) booted =
     handleLogs testLib 300000000900 (logsReq [(''since'', ''5m'')]) (handleStream_close 0 booted) \<and>
   handleLogs testLib 300000000500 (logsReq [(''since'', ''5m'')]) booted =
     \<lparr>Status = 200, ContentType = ''application/json'',
      Body = JsonLogs [\<lparr>Timestamp = 1000, Message = ''boot''\<rparr>]\<rparr>"
proof -
  have h1: "secret booted = secret (handleStream_close 0 booted)"
    by (simp add: handleStream_close_def)
  have h2: "map_option (\<lambda>ref. Logs (sessionHeap booted ref))
           (sessions booted (TrimSuffix (TrimPrefix (Path (logsReq [(''since'', ''5m'')])) ''/logs/'') ''/'')) =
         map_option (\<lambda>ref. Logs (sessionHeap (handleStream_close 0 booted) ref))
           (sessions (handleStream_close 0 booted)
              (TrimSuffix (TrimPrefix (Path (logsReq [(''since'', ''5m'')])) ''/logs/'') ''/''))"
    by (simp add: handleStream_close_def)
  have h3: "Get (Query (logsReq [(''since'', ''5m'')])) ''since'' = [] \<or>
         (\<forall>ref d. sessions booted
              (TrimSuffix (TrimPrefix (Path (logsReq [(''since'', ''5m'')])) ''/logs/'') ''/'') = Some ref \<longrightarrow>
            ParseDuration testLib (Get (Query (logsReq [(''since'', ''5m'')])) ''since'') = Inr d \<longrightarrow>
            (\<forall>e \<in> set (Logs (sessionHeap booted ref)).
               After (Timestamp e) (Add 300000000500 (- d)) =
               After (Timestamp e) (Add 300000000900 (- d))))"
    by (auto simp add: booted_frame booted_Logs logsReq_def Get_def TrimPrefix_def TrimSuffix_def
          testLib_def After_def Add_def)
  have out: "handleLogs testLib 300000000500 (logsReq [(''since'', ''5m'')]) booted =
     \<lparr>Status = 200, ContentType = ''application/json'',
      Body = JsonLogs [\<lparr>Timestamp = 1000, Message = ''boot''\<rparr>]\<rparr>"
    by (simp add: handleLogs_def Let_def TrimPrefix_def TrimSuffix_def booted_frame booted_Logs
          checkSecret_def sinceFilter_def Add_def After_def testLib_def Get_def logsReq_def)
  from handleLogs_idempotent [OF h1 h2 h3] h1 out show ?thesis by simp
qed

section \<open>Fan-out to the consumers\<close>

text \<open>
  Claim C4 says that a consumer never receives an entry that was appended to the session
  before the consumer attached. The producer stores an entry under the log lock and
  forwards it afterwards under the lock of the consumer set, and \<open>handleTail\<close> attaches
  under the latter alone: a consumer that attaches between the two steps of the frame E1
  is given handle 1 and receives E1, which was in the store when it attached.
\<close>

theorem attach_between_store_and_forward:
  "Logs (sessionHeap (run testLib [StreamStore 1 0 ''E1''] connected) 0) =
     [\<lparr>Timestamp = 1, Message = ''E1''\<rparr>] \<and>
   fst (handleTail_connect True tailReq (run testLib [StreamStore 1 0 ''E1''] connected)) =
     Upgraded 0 1 \<and>
   received (conns raced 1) = [''E1'']"
  by (simp add: raced_eq connected_eq appendLog_def parseEntry_def testLib_def IsZero_def
        handleTail_connect_def tailReq_def checkSecret_def Get_def TrimPrefix_def TrimSuffix_def
        upgradeConn_def Let_def)

text \<open>
  Claim C4, amended. A consumer that attaches is given a new handle that has received
  nothing, and from then on it receives only entries whose publish pass on its session
  runs after the attach: after any run of the server, what it has received is a prefix,
  in order, of the text frames of these passes, and it is all of them when no step of
  the run disturbs the handle (no write to it fails and it is not closed). When E1 and
  E2 are stored and forwarded, then the consumer attaches, then E3 is stored and
  forwarded, the consumer receives exactly E3.
\<close>

theorem attach_after:
  assumes "wf s" and "allocated s"
    and "checkSecret s r"
    and "TrimSuffix (TrimPrefix (Path r) ''/tail/'') ''/'' \<noteq> []"
    and "sessions s (TrimSuffix (TrimPrefix (Path r) ''/tail/'') ''/'') = Some ref"
  shows
    "fst (handleTail_connect True r s) = Upgraded ref (nextConn s) \<and>
     received (conns (snd (handleTail_connect True r s)) (nextConn s)) = [] \<and>
     (\<forall>es. \<exists>n. received (conns (run lib es (snd (handleTail_connect True r s))) (nextConn s)) =
                  take n (forwarded lib ref es)) \<and>
     (\<forall>es. (\<forall>e \<in> set es. undisturbed ref (nextConn s) e) \<longrightarrow>
            received (conns (run lib es (snd (handleTail_connect True r s))) (nextConn s)) =
              forwarded lib ref es)"
proof -
  let ?s2 = "snd (handleTail_connect True r s)"
  let ?C = "nextConn s"
  note eq = handleTail_connect_accepted [OF assms(3-5)]
  from assms(1) have wf2: "wf ?s2" by (rule wf_handleTail_connect)
  from assms(2,5) have ref: "ref < nextSession ?s2" by (auto simp add: allocated_def eq)
  have mem: "?C \<in> set (tailConns (sessionHeap ?s2 ref))" by (simp add: eq)
  have op: "\<not> closed (conns ?s2 ?C)" by (simp add: eq newConn_def)
  have emp: "received (conns ?s2 ?C) = []" by (simp add: eq newConn_def)
  from assms(2) have np: "notProducer ?s2 ?C"
    by (auto simp add: notProducer_def allocated_def eq)
  have 1: "fst (handleTail_connect True r s) = Upgraded ref ?C" by (simp add: eq)
  have 2: "\<exists>n. received (conns (run lib es ?s2) ?C) = take n (forwarded lib ref es)" for es
    using run_received_prefix [OF wf2 mem, of lib es] emp by simp
  have 3: "received (conns (run lib es ?s2) ?C) = forwarded lib ref es"
    if "\<forall>e \<in> set es. undisturbed ref ?C e" for es
    using run_received_undisturbed [OF wf2 ref mem op np that, of lib] emp by simp
  from 1 emp 2 3 show ?thesis by blast
qed

theorem attach_after_witness:
  "Logs (sessionHeap twoFrames 0) =
     [\<lparr>Timestamp = 1, Message = ''E1''\<rparr>, \<lparr>Timestamp = 2, Message = ''E2''\<rparr>] \<and>
   checkSecret twoFrames tailReq \<and>
   sessions twoFrames (TrimSuffix (TrimPrefix (Path tailReq) ''/tail/'') ''/'') = Some 0 \<and>
   fst (handleTail_connect True tailReq twoFrames) = Upgraded 0 1 \<and>
   received (conns
     (run testLib (frame testLib (\<lambda>_. True) 3 0 ''E3'')
        (snd (handleTail_connect True tailReq twoFrames))) 1) = [''E3'']"
proof -
  have h1: "wf twoFrames" unfolding twoFrames_def by (intro wf_run wf_connected)
  have h2: "allocated twoFrames" unfolding twoFrames_def by (intro allocated_run allocated_connected)
  have h3: "checkSecret twoFrames tailReq"
    unfolding checkSecret_def twoFrames_frame by (simp add: connected_eq tailReq_def Get_def)
  have h4: "TrimSuffix (TrimPrefix (Path tailReq) ''/tail/'') ''/'' \<noteq> []"
    by (simp add: tailReq_def TrimPrefix_def TrimSuffix_def)
  have h5: "sessions twoFrames (TrimSuffix (TrimPrefix (Path tailReq) ''/tail/'') ''/'') = Some 0"
    unfolding twoFrames_frame by (simp add: connected_eq tailReq_def TrimPrefix_def TrimSuffix_def)
  have nc: "nextConn twoFrames = 1"
    unfolding twoFrames_frame by (simp add: connected_eq)
  have und: "\<forall>e \<in> set (frame testLib (\<lambda>_. True) 3 0 ''E3''). undisturbed 0 1 e"
    by (simp add: frame_def)
  have fw: "forwarded testLib 0 (frame testLib (\<lambda>_. True) 3 0 ''E3'') = [''E3'']"
    by (simp add: frame_def testLib_def parseEntry_def IsZero_def)
  note t = attach_after [OF h1 h2 h3 h4 h5, of testLib, unfolded nc]
  from t have a: "fst (handleTail_connect True tailReq twoFrames) = Upgraded 0 1" by blast
  from t und have "received (conns
     (run testLib (frame testLib (\<lambda>_. True) 3 0 ''E3'')
        (snd (handleTail_connect True tailReq twoFrames))) 1) =
      forwarded testLib 0 (frame testLib (\<lambda>_. True) 3 0 ''E3'')"
    by blast
  with fw a h3 h5 twoFrames_Logs show ?thesis by simp
qed



section \<open>Reconnects\<close>

text \<open>
  Claim C1 says that after a reconnect under the same device every consumer handle
  attached to the prior session is closed. The reconnect closes the producer handle of
  the prior session only: after a consumer (handle 1) attached to the session of the
  connected producer (session 0, handle 0) and the producer reconnected, the registry
  holds the new session 1 and handle 0 is closed, but handle 1 is still attached to
  session 0 and open.
\<close>

theorem reconnect_leaves_consumers_open:
  "sessions connected ''abc'' = Some 0 \<and>
   sessions reconnected ''abc'' = Some 1 \<and>
   closed (conns reconnected 0) \<and>
   tailConns (sessionHeap reconnected 0) = [1] \<and>
   \<not> closed (conns reconnected 1)"
  by (simp add: connected_eq reconnected_eq newConn_def)

text \<open>
  Claim C1, amended. After any run of the server in which producers connected under a
  device, the registry lookup of the device returns the session of the last of these
  connects, which holds the handle of that connect; every earlier session of the device
  is a different object, and its producer handle is closed. (Nothing is said about the
  consumer handles of the earlier sessions.)
\<close>

theorem reconnect_replaces_session:
  assumes "created lib d es s \<noteq> []"
  shows
    "sessions (run lib es s) d = Some (fst (last (created lib d es s))) \<and>
     conn (sessionHeap (run lib es s) (fst (last (created lib d es s)))) =
       Some (snd (last (created lib d es s))) \<and>
     (\<forall>p \<in> set (butlast (created lib d es s)).
        fst p \<noteq> fst (last (created lib d es s)) \<and> closed (conns (run lib es s) (snd p)))"
proof -
  have "producersInv d [] s" by (simp add: producersInv_def)
  from producersInv_run [OF this, of lib es] assms show ?thesis
    by (simp add: producersInv_def)
qed

theorem reconnect_replaces_session_witness:
  "created testLib ''abc''
      [StreamConnect 0 True streamReq, StreamConnect 5 True streamReq] (NewServer ''k'') =
     [(0, 0), (1, 1)] \<and>
   sessions (run testLib [StreamConnect 0 True streamReq, StreamConnect 5 True streamReq]
      (NewServer ''k'')) ''abc'' = Some 1 \<and>
   closed (conns (run testLib [StreamConnect 0 True streamReq, StreamConnect 5 True streamReq]
      (NewServer ''k'')) 0)"
proof -
  have c: "created testLib ''abc''
      [StreamConnect 0 True streamReq, StreamConnect 5 True streamReq] (NewServer ''k'') =
     [(0, 0), (1, 1)]"
    by (simp add: handleStream_connect_def streamReq_def NewServer_def checkSecret_def Get_def
          upgradeConn_def Let_def)
  note t = reconnect_replaces_session
         [of testLib "''abc''" "[StreamConnect 0 True streamReq, StreamConnect 5 True streamReq]"
             "NewServer ''k''", unfolded c]
  from t have "sessions (run testLib [StreamConnect 0 True streamReq, StreamConnect 5 True streamReq]
      (NewServer ''k'')) ''abc'' = Some 1 \<and>
   closed (conns (run testLib [StreamConnect 0 True streamReq, StreamConnect 5 True streamReq]
      (NewServer ''k'')) 0)"
    by simp
  with c show ?thesis by blast
qed

end
